theory Spec2Isabelle
  imports Main
begin

unbundle bit_operations_syntax

section \<open>Python strings\<close>

text \<open>
  A Python \<open>str\<close> is a sequence of Unicode code points and \<open>len\<close> counts code points, so a
  string is modelled as a list of code points (natural numbers). The source uses characters
  outside ASCII (the private-use masks U+E001 and U+E002, the ellipsis U+2026, Cyrillic
  text), which a list of 8-bit characters would count wrongly.
\<close>

type_synonym pychar = nat
type_synonym pystr = "nat list"

abbreviation backslash :: pychar where "backslash \<equiv> 92"
abbreviation asterisk :: pychar where "asterisk \<equiv> 42"
abbreviation space_ch :: pychar where "space_ch \<equiv> 32"
abbreviation underscore :: pychar where "underscore \<equiv> 95"
abbreviation newline :: pychar where "newline \<equiv> 10"
abbreviation ellipsis :: pychar where "ellipsis \<equiv> 8230"

text \<open>The two private-use placeholders, U+E001 and U+E002.\<close>

abbreviation BOLD_MASK :: pychar where "BOLD_MASK \<equiv> 57345"
abbreviation ITALIC_MASK :: pychar where "ITALIC_MASK \<equiv> 57346"

text \<open>An ASCII literal of the source as a list of code points.\<close>

definition ascii :: "string \<Rightarrow> pystr" where
  "ascii s = map of_char s"

text \<open>
  \<open>str.isspace\<close> of one character: the code points CPython treats as whitespace
  (U+0009..U+000D, U+001C..U+0020, U+0085, U+00A0, U+1680, U+2000..U+200A, U+2028, U+2029,
  U+202F, U+205F, U+3000).
\<close>

definition py_isspace :: "pychar \<Rightarrow> bool" where
  "py_isspace c =
     ((9 \<le> c \<and> c \<le> 13) \<or> (28 \<le> c \<and> c \<le> 32) \<or> c = 133 \<or> c = 160 \<or> c = 5760
      \<or> (8192 \<le> c \<and> c \<le> 8202) \<or> c = 8232 \<or> c = 8233 \<or> c = 8239 \<or> c = 8287 \<or> c = 12288)"

text \<open>\<open>s.rstrip()\<close> and \<open>s.strip()\<close> without arguments.\<close>

definition rstrip :: "pystr \<Rightarrow> pystr" where
  "rstrip s = rev (dropWhile py_isspace (rev s))"

definition strip :: "pystr \<Rightarrow> pystr" where
  "strip s = dropWhile py_isspace (rstrip s)"

text \<open>
  The slice \<open>s[:k]\<close>: the first \<open>k\<close> characters, and for a negative \<open>k\<close> all but the last
  \<open>-k\<close> characters.
\<close>

definition py_prefix :: "pystr \<Rightarrow> int \<Rightarrow> pystr" where
  "py_prefix s k = (if 0 \<le> k then take (nat k) s else take (nat (int (length s) + k)) s)"

text \<open>\<open>s.startswith(p)\<close>, \<open>s.endswith(p)\<close> and the substring test \<open>p in s\<close>.\<close>

definition startswith :: "pystr \<Rightarrow> pystr \<Rightarrow> bool" where
  "startswith s p = (take (length p) s = p)"

definition endswith :: "pystr \<Rightarrow> pystr \<Rightarrow> bool" where
  "endswith s p = (length p \<le> length s \<and> drop (length s - length p) s = p)"

fun py_in :: "pystr \<Rightarrow> pystr \<Rightarrow> bool" where
  "py_in p [] = (p = [])"
| "py_in p (c # cs) = (startswith (c # cs) p \<or> py_in p cs)"

text \<open>
  \<open>str.lower\<close>, as far as a test against an ASCII pattern can observe it: the ASCII capitals
  become small letters, U+0130 becomes \<open>i\<close> followed by U+0307, and no other code point has
  an ASCII character in its lower-case form.
\<close>

definition py_lower :: "pystr \<Rightarrow> pystr" where
  "py_lower s =
     concat (map (\<lambda>c. if 65 \<le> c \<and> c \<le> 90 then [c + 32]
                        else if c = 304 then [105, 775] else [c]) s)"

text \<open>
  \<open>s.replace(old, new)\<close> for a non-empty \<open>old\<close>: the occurrences are found from left to
  right and do not overlap.
\<close>

function py_replace :: "pystr \<Rightarrow> pystr \<Rightarrow> pystr \<Rightarrow> pystr" where
  "py_replace old new [] = []"
| "py_replace old new (c # cs) =
     (if old \<noteq> [] \<and> startswith (c # cs) old
      then new @ py_replace old new (drop (length old) (c # cs))
      else c # py_replace old new cs)"
  by pat_completeness auto
termination
  by (relation "measure (\<lambda>(old, new, s). length s)") (auto simp: startswith_def)

section \<open>The formatter\<close>

text \<open>
  The two substitutions \<open>re.sub(r"__([^_\n]+?)__", r"**\1**", text)\<close> and
  \<open>re.sub(r"_([^_\n]+?)_", r"*\1*", text)\<close>. A match at the head of \<open>s\<close> is the
  delimiter, a non-empty run of characters other than underscore and newline, and the
  delimiter again. The run cannot stop early, since the closing delimiter begins with an
  underscore, so the lazy quantifier has one candidate only: the longest run.
  \<open>match_span\<close> returns the group and the text after the match.
\<close>

definition span_char :: "pychar \<Rightarrow> bool" where
  "span_char c = (c \<noteq> underscore \<and> c \<noteq> newline)"

definition match_span :: "pystr \<Rightarrow> pystr \<Rightarrow> (pystr \<times> pystr) option" where
  "match_span delim s =
     (if startswith s delim then
        (let body = drop (length delim) s;
             grp = takeWhile span_char body;
             rest = dropWhile span_char body
         in if grp \<noteq> [] \<and> startswith rest delim
            then Some (grp, drop (length delim) rest) else None)
      else None)"

text \<open>
  \<open>re.sub\<close> tries the pattern at every position from left to right; a match is replaced
  by the group between two copies of \<open>mark\<close> and the search goes on behind it, and a
  character at which nothing matches is copied.
\<close>

function re_sub_span :: "pystr \<Rightarrow> pystr \<Rightarrow> pystr \<Rightarrow> pystr" where
  "re_sub_span delim mark [] = []"
| "re_sub_span delim mark (c # cs) =
     (case match_span delim (c # cs) of
        Some (grp, rest) \<Rightarrow> mark @ grp @ mark @ re_sub_span delim mark rest
      | None \<Rightarrow> c # re_sub_span delim mark cs)"
  by pat_completeness auto
termination
proof (relation "measure (\<lambda>(delim, mark, s). length s)")
  show "wf (measure (\<lambda>(delim, mark, s). length s))" by simp
next
  fix delim mark :: pystr and c cs
  show "((delim, mark, cs), (delim, mark, c # cs)) \<in> measure (\<lambda>(delim, mark, s). length s)"
    by simp
next
  fix delim mark :: pystr and c cs x2 grp rest
  assume "match_span delim (c # cs) = Some x2" and "(grp, rest) = x2"
  then have m: "match_span delim (c # cs) = Some (grp, rest)" by simp
  define body where "body = drop (length delim) (c # cs)"
  from m have g: "grp = takeWhile span_char body" "grp \<noteq> []"
    and r: "rest = drop (length delim) (dropWhile span_char body)"
    by (auto simp: match_span_def Let_def body_def split: if_splits)
  have "length (takeWhile span_char body) + length (dropWhile span_char body) = length body"
    by (metis length_append takeWhile_dropWhile_id)
  moreover have "length body \<le> length (c # cs)" by (simp add: body_def)
  moreover have "0 < length (takeWhile span_char body)" using g by simp
  moreover have "length rest \<le> length (dropWhile span_char body)" by (simp add: r)
  ultimately have "length rest < length (c # cs)" by linarith
  then show "((delim, mark, rest), (delim, mark, c # cs)) \<in> measure (\<lambda>(delim, mark, s). length s)"
    by simp
qed

text \<open>
  The characters of the class \<open>[_\[\]\(\)~`>#+\-=|{}\.!]\<close>: underscore, brackets,
  parentheses, tilde, backtick, \<open>>\<close>, \<open>#\<close>, \<open>+\<close>, \<open>-\<close>, \<open>=\<close>, \<open>|\<close>, braces, \<open>.\<close> and \<open>!\<close>.
\<close>

definition reserved_chars :: "pychar list" where
  "reserved_chars = [95, 91, 93, 40, 41, 126, 96, 62, 35, 43, 45, 61, 124, 123, 125, 46, 33]"

definition is_reserved :: "pychar \<Rightarrow> bool" where
  "is_reserved c = (c \<in> set reserved_chars)"

text \<open>\<open>re.sub(r"([...])", r"\\\1", text)\<close>: a backslash before every reserved character.\<close>

definition escape_reserved :: "pystr \<Rightarrow> pystr" where
  "escape_reserved s = concat (map (\<lambda>c. if is_reserved c then [backslash, c] else [c]) s)"

definition escape_md_v2_preserving_formatting :: "pystr \<Rightarrow> pystr" where
  "escape_md_v2_preserving_formatting text =
     (let t1 = re_sub_span [underscore, underscore] [asterisk, asterisk] text;
          t2 = re_sub_span [underscore] [asterisk] t1;
          t3 = py_replace [asterisk, asterisk] [BOLD_MASK] t2;
          t4 = py_replace [asterisk] [ITALIC_MASK] t3;
          t5 = py_replace [backslash] [backslash, backslash] t4;
          t6 = escape_reserved t5;
          t7 = py_replace [BOLD_MASK] [asterisk, asterisk] t6;
          t8 = py_replace [ITALIC_MASK] [asterisk] t7
      in t8)"

section \<open>The truncator\<close>

text \<open>
  The \<open>while\<close> loop of \<open>_truncate_markdown_v2_safely\<close>. The loop state is the index \<open>i\<close>, the
  two flags \<open>open_bold\<close> and \<open>open_italic\<close> (integers toggled with \<open>^= 1\<close>) and
  \<open>last_safe_space\<close>; the result is the state at loop exit.
\<close>

function scan_loop :: "pystr \<Rightarrow> int \<Rightarrow> nat \<Rightarrow> nat \<Rightarrow> nat \<Rightarrow> int \<Rightarrow> nat \<times> nat \<times> int" where
  "scan_loop text limit i open_bold open_italic last_safe_space =
     (if int i < min (int (length text)) limit then
        (let ch = text ! i;
             prev_backslash = (i > 0 \<and> text ! (i - 1) = backslash)
         in if i + 1 < length text \<and> take 2 (drop i text) = [asterisk, asterisk] \<and> \<not> prev_backslash
            then scan_loop text limit (i + 2) (open_bold XOR 1) open_italic last_safe_space
            else
              (let open_italic' =
                     (if ch = asterisk \<and> \<not> prev_backslash
                      then (let is_double = (i + 1 < length text \<and> text ! (i + 1) = asterisk)
                            in if \<not> is_double then open_italic XOR 1 else open_italic)
                      else open_italic);
                   last_safe_space' =
                     (if ch = space_ch \<and> open_bold = 0 \<and> open_italic' = 0
                      then int i else last_safe_space)
               in scan_loop text limit (i + 1) open_bold open_italic' last_safe_space'))
      else (open_bold, open_italic, last_safe_space))"
  by pat_completeness auto
termination
  by (relation "measure (\<lambda>(text, limit, i, _). nat (min (int (length text)) limit) - i)") auto

declare scan_loop.simps [simp del]

definition truncate_markdown_v2_safely :: "pystr \<Rightarrow> int \<Rightarrow> pystr" where
  "truncate_markdown_v2_safely text limit =
     (if int (length text) \<le> limit then text
      else (let (open_bold, open_italic, last_safe_space) = scan_loop text limit 0 0 0 (- 1);
                cut_index = (if last_safe_space \<noteq> - 1 then last_safe_space
                             else max 0 (limit - 1));
                truncated = rstrip (py_prefix text cut_index)
            in truncated @ [ellipsis]))"

text \<open>\<open>prepare_markdown_v2(text, limit)\<close>; \<open>limit = None\<close> is the default.\<close>

definition prepare_markdown_v2 :: "pystr \<Rightarrow> int option \<Rightarrow> pystr" where
  "prepare_markdown_v2 text limit =
     (let escaped = escape_md_v2_preserving_formatting text
      in case limit of
           None \<Rightarrow> escaped
         | Some l \<Rightarrow> if int (length escaped) > l then truncate_markdown_v2_safely escaped l
                     else escaped)"

section \<open>Delivery\<close>

text \<open>
  The transport raises \<open>TelegramError\<close> or some other exception, or returns. Every send and
  every download of \<open>send_to_telegram\<close> is recorded as an event, together with the log
  records the function writes.
\<close>

datatype exn = TelegramError | OtherException

datatype outcome = Sent | Raises exn

datatype parse_mode = MarkdownV2

datatype http_response = HttpResponse (content_type_header: "pystr option") (content: "nat list")

datatype input_file = InputFile (file_bytes: "nat list") (filename: pystr)

datatype photo = RemoteUrl pystr | Upload input_file

text \<open>
  \<open>http_get\<close> is \<open>requests.get\<close> followed by \<open>raise_for_status\<close> (\<open>None\<close> when either raises),
  \<open>send_photo\<close> and \<open>send_message\<close> are the two methods of the bot.
\<close>

record transport =
  http_get :: "pystr \<Rightarrow> http_response option"
  send_photo :: "photo \<Rightarrow> pystr \<Rightarrow> parse_mode \<Rightarrow> outcome"
  send_message :: "pystr \<Rightarrow> parse_mode option \<Rightarrow> outcome"

datatype level = INFO | WARNING | ERROR | CRITICAL

datatype log_msg =
    CaptionTruncated | PhotoSent | PhotoUrlFailed | PhotoUploadSent | PhotoUploadFailed
  | PhotoUnknownError | TextSent | TextMarkdownFailed | PlainSent | PlainFailed

datatype event =
    HttpGet pystr
  | SendPhoto photo pystr parse_mode
  | SendMessage pystr "parse_mode option"
  | Log level log_msg

text \<open>
  \<open>_build_input_file_from_url\<close>: every exception is caught and gives \<open>None\<close>; the header
  defaults to the empty string.
\<close>

definition build_input_file_from_url :: "transport \<Rightarrow> pystr \<Rightarrow> input_file option" where
  "build_input_file_from_url tr url =
     (case http_get tr url of
        None \<Rightarrow> None
      | Some resp \<Rightarrow>
          (let content_type =
                 py_lower (case content_type_header resp of None \<Rightarrow> [] | Some v \<Rightarrow> v)
           in if \<not> py_in (ascii ''image'') content_type \<or> py_in (ascii ''svg'') content_type
              then None
              else (let ext =
                          (if py_in (ascii ''png'') content_type then ascii ''.png''
                           else if py_in (ascii ''webp'') content_type then ascii ''.webp''
                           else if py_in (ascii ''jpeg'') content_type
                                   \<or> py_in (ascii ''jpg'') content_type then ascii ''.jpg''
                           else ascii ''.jpg'')
                    in Some (InputFile (content resp) (ascii ''image'' @ ext)))))"

text \<open>
  The two links built from \<open>CHANNEL_LINK\<close>, a constant of the configuration and a parameter
  here. The Cyrillic label has 17 characters.
\<close>

definition link_md2 :: "pystr \<Rightarrow> pystr" where
  "link_md2 channel_link =
     [10, 10, 91, 1055, 1077, 1088, 1077, 1081, 1090, 1080, 32, 1076, 1086, 32,
      1082, 1072, 1085, 1072, 1083, 1091, 93, 40] @ channel_link @ [41]"

definition plain_text_link :: "pystr \<Rightarrow> pystr" where
  "plain_text_link channel_link =
     [10, 10, 1055, 1077, 1088, 1077, 1081, 1090, 1080, 32, 1076, 1086, 32,
      1082, 1072, 1085, 1072, 1083, 1091, 58, 32] @ channel_link"

text \<open>The caption of both photo sends (\<open>final_caption_md2\<close>) and whether it was cut.\<close>

definition caption_truncated :: "pystr \<Rightarrow> pystr \<Rightarrow> bool" where
  "caption_truncated channel_link post_text =
     (length (prepare_markdown_v2 post_text None) + length (link_md2 channel_link) > 1024)"

definition final_caption_md2 :: "pystr \<Rightarrow> pystr \<Rightarrow> pystr" where
  "final_caption_md2 channel_link post_text =
     (let base_caption_md2 = prepare_markdown_v2 post_text None;
          base_caption_md2 =
            (if length base_caption_md2 + length (link_md2 channel_link) > 1024
             then (let new_limit = 1024 - int (length (link_md2 channel_link))
                   in truncate_markdown_v2_safely base_caption_md2 new_limit)
             else base_caption_md2)
      in base_caption_md2 @ link_md2 channel_link)"

text \<open>The text of the message sent with \<open>parse_mode="MarkdownV2"\<close>.\<close>

definition final_text_md2 :: "pystr \<Rightarrow> pystr \<Rightarrow> pystr" where
  "final_text_md2 channel_link post_text =
     (let base_text_md2 = prepare_markdown_v2 post_text None;
          final_text_md2 = base_text_md2 @ link_md2 channel_link
      in if length final_text_md2 > 4096
         then (let new_limit = 4096 - int (length (link_md2 channel_link));
                   base_text_md2 = truncate_markdown_v2_safely base_text_md2 new_limit
               in base_text_md2 @ link_md2 channel_link)
         else final_text_md2)"

text \<open>The text of the message sent with \<open>parse_mode=None\<close>.\<close>

definition plain_text :: "pystr \<Rightarrow> pystr \<Rightarrow> pystr" where
  "plain_text channel_link post_text =
     (let full_plain_text = post_text @ plain_text_link channel_link
      in if length full_plain_text \<le> 4096 then full_plain_text
         else take 4092 full_plain_text @ ascii ''...'')"

text \<open>
  The branch \<open>if image_url:\<close> of \<open>send_to_telegram\<close>: the events, \<open>photo_sent\<close>, and the
  exception that leaves the function, if any. An exception other than \<open>TelegramError\<close>
  raised by the second \<open>send_photo\<close> is raised inside an \<open>except\<close> clause, so the clause
  \<open>except Exception\<close> of the same \<open>try\<close> does not catch it.
\<close>

definition photo_stage :: "transport \<Rightarrow> pystr \<Rightarrow> pystr \<Rightarrow> pystr \<Rightarrow> event list \<times> bool \<times> exn option" where
  "photo_stage tr channel_link post_text image_url =
     (let caption = final_caption_md2 channel_link post_text;
          warn = (if caption_truncated channel_link post_text
                  then [Log WARNING CaptionTruncated] else []);
          first = warn @ [SendPhoto (RemoteUrl image_url) caption MarkdownV2]
      in case send_photo tr (RemoteUrl image_url) caption MarkdownV2 of
           Sent \<Rightarrow> (first @ [Log INFO PhotoSent], True, None)
         | Raises OtherException \<Rightarrow> (first @ [Log ERROR PhotoUnknownError], False, None)
         | Raises TelegramError \<Rightarrow>
             (let second = first @ [Log ERROR PhotoUrlFailed, HttpGet image_url]
              in case build_input_file_from_url tr image_url of
                   None \<Rightarrow> (second @ [Log ERROR PhotoUploadFailed], False, None)
                 | Some file \<Rightarrow>
                     (let upload = second @ [SendPhoto (Upload file) caption MarkdownV2]
                      in case send_photo tr (Upload file) caption MarkdownV2 of
                           Sent \<Rightarrow> (upload @ [Log INFO PhotoUploadSent], True, None)
                         | Raises TelegramError \<Rightarrow>
                             (upload @ [Log ERROR PhotoUploadFailed], False, None)
                         | Raises OtherException \<Rightarrow> (upload, False, Some OtherException))))"

text \<open>The branch \<open>if not photo_sent:\<close>; only \<open>TelegramError\<close> is caught.\<close>

definition text_stage :: "transport \<Rightarrow> pystr \<Rightarrow> pystr \<Rightarrow> event list \<times> exn option" where
  "text_stage tr channel_link post_text =
     (let rich = final_text_md2 channel_link post_text;
          first = [SendMessage rich (Some MarkdownV2)]
      in case send_message tr rich (Some MarkdownV2) of
           Sent \<Rightarrow> (first @ [Log INFO TextSent], None)
         | Raises OtherException \<Rightarrow> (first, Some OtherException)
         | Raises TelegramError \<Rightarrow>
             (let plain = plain_text channel_link post_text;
                  second = first @ [Log ERROR TextMarkdownFailed, SendMessage plain None]
              in case send_message tr plain None of
                   Sent \<Rightarrow> (second @ [Log INFO PlainSent], None)
                 | Raises TelegramError \<Rightarrow> (second @ [Log CRITICAL PlainFailed], None)
                 | Raises OtherException \<Rightarrow> (second, Some OtherException)))"

text \<open>
  \<open>send_to_telegram(post_text, image_url)\<close>. \<open>if image_url:\<close> is false for \<open>None\<close> and for
  the empty string.
\<close>

definition send_to_telegram ::
    "transport \<Rightarrow> pystr \<Rightarrow> pystr \<Rightarrow> pystr option \<Rightarrow> event list \<times> exn option" where
  "send_to_telegram tr channel_link post_text image_url =
     (let (photo_events, photo_sent, raised) =
            (case image_url of
               None \<Rightarrow> ([], False, None)
             | Some url \<Rightarrow> if url \<noteq> [] then photo_stage tr channel_link post_text url
                          else ([], False, None))
      in case raised of
           Some e \<Rightarrow> (photo_events, Some e)
         | None \<Rightarrow>
             if \<not> photo_sent
             then (let (text_events, raised) = text_stage tr channel_link post_text
                   in (photo_events @ text_events, raised))
             else (photo_events, None))"

text \<open>The delivery calls of a run, in order, and the strategy each one belongs to.\<close>

datatype strategy = RemotePhoto | ReuploadedPhoto | RichText | PlainText

fun strategy_of :: "event \<Rightarrow> strategy option" where
  "strategy_of (SendPhoto (RemoteUrl u) c m) = Some RemotePhoto"
| "strategy_of (SendPhoto (Upload f) c m) = Some ReuploadedPhoto"
| "strategy_of (SendMessage t (Some m)) = Some RichText"
| "strategy_of (SendMessage t None) = Some PlainText"
| "strategy_of (HttpGet u) = None"
| "strategy_of (Log l m) = None"

definition delivery_attempts :: "event list \<Rightarrow> strategy list" where
  "delivery_attempts evs = List.map_filter strategy_of evs"

section \<open>Image selection\<close>

text \<open>
  What \<open>select_best_image\<close> asks of its surroundings: \<open>format_prompt\<close> is
  \<open>IMAGE_SELECTION_PROMPT.format(post_text=...)\<close> (\<open>None\<close> when the template of the
  configuration makes it raise); \<open>fetch_image k url\<close> is the \<open>k\<close>-th download, with the
  \<open>Content-Type\<close> header and whether \<open>Image.open\<close> and \<open>convert\<close> go through;
  \<open>generate_content\<close> is the model call, with \<open>response.text\<close>; \<open>digit_value\<close> is the value of
  a Unicode decimal digit, the characters \<open>\d\<close> matches and \<open>int\<close> reads.
\<close>

datatype fetched = FetchFailed | Fetched "pystr option" bool

datatype model_reply = ModelRaises | ModelText "pystr option"

record ranking =
  format_prompt :: "pystr \<Rightarrow> pystr option"
  fetch_image :: "nat \<Rightarrow> pystr \<Rightarrow> fetched"
  generate_content :: "pystr \<Rightarrow> pystr list \<Rightarrow> model_reply"
  digit_value :: "pychar \<Rightarrow> nat option"

text \<open>The \<open>try\<close> block of the loop: whether the candidate is appended.\<close>

definition image_loads :: "ranking \<Rightarrow> nat \<Rightarrow> pystr \<Rightarrow> bool" where
  "image_loads rk k url =
     (case fetch_image rk k url of
        FetchFailed \<Rightarrow> False
      | Fetched header decodes \<Rightarrow>
          (let content_type = py_lower (case header of None \<Rightarrow> [] | Some v \<Rightarrow> v)
           in if py_in (ascii ''svg'') content_type \<or> endswith (py_lower url) (ascii ''.svg'')
              then False
              else decodes))"

fun load_images :: "ranking \<Rightarrow> nat \<Rightarrow> pystr list \<Rightarrow> pystr list" where
  "load_images rk k [] = []"
| "load_images rk k (url # urls) =
     (if image_loads rk k url then url # load_images rk (k + 1) urls
      else load_images rk (k + 1) urls)"

text \<open>\<open>re.search(r"(\d+)", raw)\<close> and \<open>int(m.group(1)) - 1\<close>: the first run of digits.\<close>

definition parse_index :: "ranking \<Rightarrow> pystr \<Rightarrow> int option" where
  "parse_index rk raw =
     (let digits = takeWhile (\<lambda>c. digit_value rk c \<noteq> None)
                     (dropWhile (\<lambda>c. digit_value rk c = None) raw)
      in if digits = [] then None
         else Some (int (foldl (\<lambda>a c. 10 * a + (case digit_value rk c of None \<Rightarrow> 0 | Some d \<Rightarrow> d))
                           0 digits) - 1))"

definition select_best_image :: "ranking \<Rightarrow> pystr list \<Rightarrow> pystr \<Rightarrow> exn + pystr option" where
  "select_best_image rk image_urls post_text =
     (if image_urls = [] then Inr None
      else case format_prompt rk post_text of
             None \<Rightarrow> Inl OtherException
           | Some prompt_text \<Rightarrow>
               (let valid_urls_for_model = load_images rk 0 (take 5 image_urls)
                in case valid_urls_for_model of
                     [] \<Rightarrow> Inr None
                   | first_valid # _ \<Rightarrow>
                       (case generate_content rk prompt_text valid_urls_for_model of
                          ModelRaises \<Rightarrow> Inr (Some first_valid)
                        | ModelText t \<Rightarrow>
                            (let raw = strip (case t of None \<Rightarrow> [] | Some v \<Rightarrow> v)
                             in case parse_index rk raw of
                                  None \<Rightarrow> Inr (Some first_valid)
                                | Some idx \<Rightarrow>
                                    if 0 \<le> idx \<and> idx < int (length valid_urls_for_model)
                                    then Inr (Some (valid_urls_for_model ! nat idx))
                                    else Inr (Some first_valid)))))"

section \<open>The schedule\<close>




section \<open>Notions used in the statements\<close>

text \<open>
  One step of the loop of the truncator, split into its parts: whether the index is inside
  the scanned window, whether a double marker is consumed there, and otherwise the new
  values of \<open>open_italic\<close> and \<open>last_safe_space\<close>.
\<close>

definition in_window :: "pystr \<Rightarrow> int \<Rightarrow> nat \<Rightarrow> bool" where
  "in_window t limit i = (int i < min (int (length t)) limit)"

definition bold_here :: "pystr \<Rightarrow> nat \<Rightarrow> bool" where
  "bold_here t i = (i + 1 < length t \<and> take 2 (drop i t) = [asterisk, asterisk]
                     \<and> \<not> (i > 0 \<and> t ! (i - 1) = backslash))"

definition italic_step :: "pystr \<Rightarrow> nat \<Rightarrow> nat \<Rightarrow> nat" where
  "italic_step t i oi =
     (if t ! i = asterisk \<and> \<not> (i > 0 \<and> t ! (i - 1) = backslash)
      then (if \<not> (i + 1 < length t \<and> t ! (i + 1) = asterisk) then oi XOR 1 else oi)
      else oi)"

definition safe_step :: "pystr \<Rightarrow> nat \<Rightarrow> nat \<Rightarrow> nat \<Rightarrow> int \<Rightarrow> int" where
  "safe_step t i ob oi lss = (if t ! i = space_ch \<and> ob = 0 \<and> oi = 0 then int i else lss)"

text \<open>
  The text between the masking step and the escaping step of the formatter, what the
  remaining steps make of one character of it, and the escaping of one character in a
  single pass.
\<close>

definition masked_text :: "pystr \<Rightarrow> pystr" where
  "masked_text text =
     py_replace [asterisk] [ITALIC_MASK] (py_replace [asterisk, asterisk] [BOLD_MASK]
       (re_sub_span [underscore] [asterisk]
          (re_sub_span [underscore, underscore] [asterisk, asterisk] text)))"

definition out_token :: "pychar \<Rightarrow> pystr" where
  "out_token c =
     (if c = backslash then [backslash, backslash]
      else if is_reserved c then [backslash, c]
      else if c = BOLD_MASK then [asterisk, asterisk]
      else if c = ITALIC_MASK then [asterisk]
      else [c])"

definition escape_once :: "pychar \<Rightarrow> pystr" where
  "escape_once c = (if c = backslash \<or> is_reserved c then [backslash, c] else [c])"

text \<open>
  An escaped text has no unescaped reserved character when, reading from the left with a
  backslash escaping the character after it, no reserved character is met outside such a
  pair.
\<close>

fun no_unescaped_reserved :: "pystr \<Rightarrow> bool" where
  "no_unescaped_reserved [] = True"
| "no_unescaped_reserved (c # cs) =
     (if c = backslash then (case cs of [] \<Rightarrow> True | d # ds \<Rightarrow> no_unescaped_reserved ds)
      else \<not> is_reserved c \<and> no_unescaped_reserved cs)"

text \<open>
  The span markers of an escaped text as the rich-text syntax reads them, which is how the
  formatter writes them: a backslash escapes the character after it (so two backslashes are
  one literal backslash and escape nothing further), two asterisks are a bold marker and
  any other asterisk is an italic marker. The result counts the bold and the italic
  markers.
\<close>

fun unescaped_markers :: "pystr \<Rightarrow> nat \<times> nat" where
  "unescaped_markers [] = (0, 0)"
| "unescaped_markers [c] = (if c = asterisk then (0, 1) else (0, 0))"
| "unescaped_markers (c # d # cs) =
     (if c = backslash then unescaped_markers cs
      else if c = asterisk \<and> d = asterisk
           then (case unescaped_markers cs of (b, i) \<Rightarrow> (b + 1, i))
      else if c = asterisk
           then (case unescaped_markers (d # cs) of (b, i) \<Rightarrow> (b, i + 1))
      else unescaped_markers (d # cs))"

text \<open>
  The open spans of a string as the truncator reads them: the two flags of its loop after
  the whole string has been scanned.
\<close>

definition scanned_open_spans :: "pystr \<Rightarrow> nat \<times> nat" where
  "scanned_open_spans s =
     (case scan_loop s (int (length s)) 0 0 0 (- 1) of (open_bold, open_italic, _) \<Rightarrow>
        (open_bold, open_italic))"

text \<open>
  The ranking collaborator gives no clear answer when the call raises or when the reply
  holds no number between 1 and the number of images sent.
\<close>

definition no_clear_answer :: "ranking \<Rightarrow> pystr \<Rightarrow> pystr list \<Rightarrow> bool" where
  "no_clear_answer rk prompt_text valid =
     (case generate_content rk prompt_text valid of
        ModelRaises \<Rightarrow> True
      | ModelText t \<Rightarrow>
          (case parse_index rk (strip (case t of None \<Rightarrow> [] | Some v \<Rightarrow> v)) of
             None \<Rightarrow> True
           | Some idx \<Rightarrow> \<not> (0 \<le> idx \<and> idx < int (length valid))))"



text \<open>Concrete inputs for the examples below.\<close>

definition failing_transport :: transport where
  "failing_transport =
     \<lparr>http_get = (\<lambda>u. Some (HttpResponse (Some (ascii ''image/png'')) [1, 2, 3])),
      send_photo = (\<lambda>p c m. Raises TelegramError),
      send_message = (\<lambda>t m. Raises TelegramError)\<rparr>"

definition offline_transport :: transport where
  "offline_transport =
     \<lparr>http_get = (\<lambda>u. None),
      send_photo = (\<lambda>p c m. Raises TelegramError),
      send_message = (\<lambda>t m. Raises TelegramError)\<rparr>"

definition example_link :: pystr where
  "example_link = [104, 116, 116, 112, 115, 58, 47, 47, 116, 46, 109, 101, 47, 97, 98, 99, 100]"

definition example_ranking :: ranking where
  "example_ranking =
     \<lparr>format_prompt = (\<lambda>p. Some p),
      fetch_image = (\<lambda>k u. if k = 0 then FetchFailed else Fetched (Some (ascii ''image/png'')) True),
      generate_content = (\<lambda>p v. ModelRaises),
      digit_value = (\<lambda>c. if 48 \<le> c \<and> c \<le> 57 then Some (c - 48) else None)\<rparr>"

definition dead_ranking :: ranking where
  "dead_ranking =
     \<lparr>format_prompt = (\<lambda>p. Some p),
      fetch_image = (\<lambda>k u. FetchFailed),
      generate_content = (\<lambda>p v. ModelRaises),
      digit_value = (\<lambda>c. if 48 \<le> c \<and> c \<le> 57 then Some (c - 48) else None)\<rparr>"


definition bug_raw :: pystr where
  "bug_raw = [97, 32, 92, 42, 98, 32, 99, 92, 42, 32, 100, 100, 100, 100]"

definition bug_escaped :: pystr where
  "bug_escaped = [97, 32, 92, 92, 42, 98, 32, 99, 92, 92, 42, 32, 100, 100, 100, 100]"

definition bug_post :: pystr where
  "bug_post = replicate 975 100 @ bug_raw"

section \<open>The truncator: length bound and identity\<close>

lemma length_rstrip_le: "length (rstrip s) \<le> length s"
  unfolding rstrip_def using length_dropWhile_le [of py_isspace "rev s"] by simp

lemma scan_loop_stop:
  "\<not> in_window t limit i \<Longrightarrow> scan_loop t limit i ob oi lss = (ob, oi, lss)"
  unfolding in_window_def by (subst scan_loop.simps) auto

lemma scan_loop_bold:
  "in_window t limit i \<Longrightarrow> bold_here t i \<Longrightarrow>
     scan_loop t limit i ob oi lss = scan_loop t limit (i + 2) (ob XOR 1) oi lss"
  unfolding in_window_def bold_here_def by (subst scan_loop.simps) (simp add: Let_def)

lemma scan_loop_single:
  "in_window t limit i \<Longrightarrow> \<not> bold_here t i \<Longrightarrow>
     scan_loop t limit i ob oi lss =
       scan_loop t limit (i + 1) ob (italic_step t i oi)
         (safe_step t i ob (italic_step t i oi) lss)"
  unfolding in_window_def bold_here_def italic_step_def safe_step_def
  by (subst scan_loop.simps) (simp only: Let_def if_True if_False simp_thms)

lemmas scan_eval =
  scan_loop_single scan_loop_stop scan_loop_bold in_window_def bold_here_def
  italic_step_def safe_step_def

lemma scan_loop_last_safe_range:
  "scan_loop t limit i ob oi lss = (ob', oi', p) \<Longrightarrow>
     p = lss \<or> (int i \<le> p \<and> p < min (int (length t)) limit \<and> t ! nat p = space_ch)"
proof (induction "nat (min (int (length t)) limit) - i" arbitrary: i ob oi lss rule: less_induct)
  case less
  show ?case
  proof (cases "in_window t limit i")
    case False
    with less.prems show ?thesis by (simp add: scan_loop_stop)
  next
    case inb: True
    show ?thesis
    proof (cases "bold_here t i")
      case True
      with inb less.prems
      have "scan_loop t limit (i + 2) (ob XOR 1) oi lss = (ob', oi', p)"
        by (simp add: scan_loop_bold)
      moreover have "nat (min (int (length t)) limit) - (i + 2) < nat (min (int (length t)) limit) - i"
        using inb by (auto simp: in_window_def)
      ultimately have "p = lss \<or> (int (i + 2) \<le> p \<and> p < min (int (length t)) limit
           \<and> t ! nat p = space_ch)"
        using less.hyps by blast
      then show ?thesis by auto
    next
      case False
      with inb less.prems
      have "scan_loop t limit (i + 1) ob (italic_step t i oi)
         (safe_step t i ob (italic_step t i oi) lss) = (ob', oi', p)"
        by (simp add: scan_loop_single)
      moreover have "nat (min (int (length t)) limit) - (i + 1) < nat (min (int (length t)) limit) - i"
        using inb by (auto simp: in_window_def)
      ultimately have "p = safe_step t i ob (italic_step t i oi) lss
           \<or> (int (i + 1) \<le> p \<and> p < min (int (length t)) limit \<and> t ! nat p = space_ch)"
        using less.hyps by blast
      then show ?thesis using inb by (auto simp: safe_step_def in_window_def split: if_splits)
    qed
  qed
qed

lemma truncate_cut:
  assumes "limit < int (length s)"
  obtains cut where "0 \<le> cut" and "cut \<le> max 0 (limit - 1)"
    and "truncate_markdown_v2_safely s limit = rstrip (py_prefix s cut) @ [ellipsis]"
proof -
  obtain ob oi p where run: "scan_loop s limit 0 0 0 (- 1) = (ob, oi, p)"
    by (cases "scan_loop s limit 0 0 0 (- 1)") auto
  from scan_loop_last_safe_range [OF run]
  have p: "p = - 1 \<or> (0 \<le> p \<and> p < limit)" by auto
  define cut where "cut = (if p \<noteq> - 1 then p else max 0 (limit - 1))"
  have "0 \<le> cut" "cut \<le> max 0 (limit - 1)" using p by (auto simp: cut_def)
  moreover have "truncate_markdown_v2_safely s limit = rstrip (py_prefix s cut) @ [ellipsis]"
    using assms run by (simp add: truncate_markdown_v2_safely_def cut_def)
  ultimately show thesis using that by blast
qed

lemma truncate_long:
  assumes "limit < int (length s)"
  shows "int (length (truncate_markdown_v2_safely s limit)) \<le> max 0 (limit - 1) + 1"
    and "last (truncate_markdown_v2_safely s limit) = ellipsis"
proof -
  obtain cut where cut: "0 \<le> cut" "cut \<le> max 0 (limit - 1)"
    and eq: "truncate_markdown_v2_safely s limit = rstrip (py_prefix s cut) @ [ellipsis]"
    using truncate_cut [OF assms] by blast
  have "length (rstrip (py_prefix s cut)) \<le> nat cut"
    using length_rstrip_le [of "py_prefix s cut"] cut by (simp add: py_prefix_def)
  then show "int (length (truncate_markdown_v2_safely s limit)) \<le> max 0 (limit - 1) + 1"
    using cut by (simp add: eq)
  show "last (truncate_markdown_v2_safely s limit) = ellipsis" by (simp add: eq)
qed

lemma truncate_bound:
  assumes "0 \<le> limit"
  shows "int (length (truncate_markdown_v2_safely s limit)) \<le> limit + int (length [ellipsis])"
proof (cases "int (length s) \<le> limit")
  case True
  then show ?thesis by (simp add: truncate_markdown_v2_safely_def)
next
  case False
  then have "limit < int (length s)" by simp
  from truncate_long(1) [OF this] assms show ?thesis by simp
qed

text \<open>
  Claim C3. For every string and every limit that is not negative, the truncator returns a
  string of at most \<open>limit\<close> characters plus the one character of the ellipsis, whether or
  not a safe space was found; the same holds for \<open>prepare_markdown_v2\<close> called with that
  limit.
\<close>

theorem truncate_length_bounded:
  "0 \<le> limit \<Longrightarrow>
     int (length (truncate_markdown_v2_safely s limit)) \<le> limit + int (length [ellipsis])
     \<and> int (length (prepare_markdown_v2 raw (Some limit))) \<le> limit + int (length [ellipsis])"
  using truncate_bound [of limit s]
    truncate_bound [of limit "escape_md_v2_preserving_formatting raw"]
  by (simp add: prepare_markdown_v2_def Let_def)

theorem truncate_length_bounded_witness:
  "(0::int) \<le> 3
   \<and> int (length (truncate_markdown_v2_safely [97, 97, 97, 97, 97] 3)) \<le> 3 + int (length [ellipsis])
   \<and> int (length (prepare_markdown_v2 [97, 46, 97, 97] (Some 3))) \<le> 3 + int (length [ellipsis])"
  using truncate_length_bounded [of 3 "[97, 97, 97, 97, 97]" "[97, 46, 97, 97]"] by simp

text \<open>
  Claim C9. A string that is not longer than the limit is returned unchanged by the
  truncator, and \<open>prepare_markdown_v2\<close> returns the escaped text unchanged when it fits.
\<close>

theorem truncate_within_limit_unchanged:
  "int (length s) \<le> limit \<Longrightarrow>
     truncate_markdown_v2_safely s limit = s
     \<and> (s = escape_md_v2_preserving_formatting raw \<longrightarrow> prepare_markdown_v2 raw (Some limit) = s)"
  by (auto simp: truncate_markdown_v2_safely_def prepare_markdown_v2_def Let_def)

theorem truncate_within_limit_unchanged_witness:
  "int (length [97, 32, 98::nat]) \<le> 3 \<and> truncate_markdown_v2_safely [97, 32, 98] 3 = [97, 32, 98]"
  using truncate_within_limit_unchanged [of "[97, 32, 98]" 3] by simp

section \<open>The formatter: escaping\<close>

lemma py_replace_single:
  "py_replace [a] new s = concat (map (\<lambda>c. if c = a then new else [c]) s)"
  by (induction s) (auto simp: startswith_def)

lemma is_reserved_simps:
  "\<not> is_reserved backslash" "\<not> is_reserved BOLD_MASK" "\<not> is_reserved ITALIC_MASK"
  "\<not> is_reserved asterisk" "is_reserved underscore"
  by (simp_all add: is_reserved_def reserved_chars_def)

lemma escape_single_pass:
  "escape_reserved (py_replace [backslash] [backslash, backslash] s) = concat (map escape_once s)"
  unfolding py_replace_single escape_reserved_def
  by (induction s) (auto simp: escape_once_def is_reserved_simps)

lemma unmask_escape:
  "py_replace [ITALIC_MASK] [asterisk] (py_replace [BOLD_MASK] [asterisk, asterisk]
      (escape_reserved (py_replace [backslash] [backslash, backslash] s)))
   = concat (map out_token s)"
  unfolding py_replace_single escape_reserved_def
  by (induction s) (auto simp: out_token_def is_reserved_simps)

lemma formatter_tokens:
  "escape_md_v2_preserving_formatting text = concat (map out_token (masked_text text))"
  by (simp only: escape_md_v2_preserving_formatting_def Let_def unmask_escape masked_text_def)

lemma formatter_single_pass:
  "escape_md_v2_preserving_formatting text =
     py_replace [ITALIC_MASK] [asterisk] (py_replace [BOLD_MASK] [asterisk, asterisk]
       (concat (map escape_once (masked_text text))))"
  by (simp only: escape_md_v2_preserving_formatting_def Let_def escape_single_pass masked_text_def)

lemma no_unescaped_token:
  "no_unescaped_reserved (out_token c @ r) = no_unescaped_reserved r"
  by (auto simp: out_token_def is_reserved_simps)

lemma no_unescaped_tokens: "no_unescaped_reserved (concat (map out_token s))"
  by (induction s) (simp_all add: no_unescaped_token)

lemma formatter_no_unescaped:
  "no_unescaped_reserved (escape_md_v2_preserving_formatting text)"
  by (simp only: formatter_tokens no_unescaped_tokens)

lemmas formatter_eval =
  escape_md_v2_preserving_formatting_def match_span_def startswith_def span_char_def
  escape_reserved_def is_reserved_def reserved_chars_def Let_def

text \<open>
  Claim C2. For every input the output of the formatter has no unescaped reserved
  character (the asterisks of the span markers are not in the reserved set and stay as they
  are). Escaping the backslashes first and the reserved characters second is the same as
  one pass that puts exactly one backslash before each backslash and each reserved
  character, so nothing is escaped twice.
\<close>

theorem formatter_escapes_reserved:
  "no_unescaped_reserved (escape_md_v2_preserving_formatting text)
   \<and> escape_reserved (py_replace [backslash] [backslash, backslash] s) = concat (map escape_once s)
   \<and> escape_md_v2_preserving_formatting text =
       py_replace [ITALIC_MASK] [asterisk] (py_replace [BOLD_MASK] [asterisk, asterisk]
         (concat (map escape_once (masked_text text))))"
  by (intro conjI formatter_no_unescaped escape_single_pass formatter_single_pass)

theorem formatter_escapes_reserved_witness:
  "no_unescaped_reserved (escape_md_v2_preserving_formatting [92, 95, 46])
   \<and> escape_md_v2_preserving_formatting [92, 95, 46] = [92, 92, 92, 95, 92, 46]"
proof -
  have "escape_md_v2_preserving_formatting [92, 95, 46] = [92, 92, 92, 95, 92, 46]"
    by (simp add: formatter_eval)
  moreover have "no_unescaped_reserved (escape_md_v2_preserving_formatting [92, 95, 46])"
    using formatter_escapes_reserved [of "[92, 95, 46]" "[]"] by (rule conjunct1)
  ultimately show ?thesis by (rule conjI [rotated])
qed

section \<open>The formatter: unmatched underscores\<close>

lemma py_replace_double_count_other:
  "x \<noteq> a \<Longrightarrow> x \<noteq> b \<Longrightarrow> count_list (py_replace [a, a] [b] s) x = count_list s x"
proof (induction "[a, a]" "[b]" s rule: py_replace.induct)
  case 1
  show ?case by simp
next
  case (2 c cs)
  show ?case
  proof (cases "startswith (c # cs) [a, a]")
    case True
    then obtain ds where cs: "c = a" "cs = a # ds"
      by (cases cs) (auto simp: startswith_def)
    with True 2 show ?thesis by simp
  next
    case False
    with 2 show ?thesis by simp
  qed
qed

lemma py_replace_double_counts:
  "a \<noteq> b \<Longrightarrow>
     count_list (py_replace [a, a] [b] s) a + 2 * count_list (py_replace [a, a] [b] s) b
       = count_list s a + 2 * count_list s b"
proof (induction "[a, a]" "[b]" s rule: py_replace.induct)
  case 1
  show ?case by simp
next
  case (2 c cs)
  show ?case
  proof (cases "startswith (c # cs) [a, a]")
    case True
    then obtain ds where cs: "c = a" "cs = a # ds"
      by (cases cs) (auto simp: startswith_def)
    with True 2 show ?thesis by simp
  next
    case False
    with 2 show ?thesis by simp
  qed
qed

lemma parity_drop_pairs:
  fixes m g r R d :: nat
  shows "even (R + r) \<Longrightarrow> even (2 * m + g + R + (2 * d + g + r))"
  by presburger

lemma py_replace_single_count_other:
  "x \<noteq> a \<Longrightarrow> x \<notin> set new \<Longrightarrow> count_list (py_replace [a] new s) x = count_list s x"
  unfolding py_replace_single by (induction s) auto

lemma py_replace_single_count_new:
  "a \<noteq> b \<Longrightarrow> count_list (py_replace [a] [b] s) b = count_list s b + count_list s a"
  unfolding py_replace_single by (induction s) auto

lemma py_replace_single_count_old:
  "a \<noteq> b \<Longrightarrow> count_list (py_replace [a] [b] s) a = 0"
  unfolding py_replace_single by (induction s) auto

lemma out_tokens_count_underscore:
  "count_list (concat (map out_token s)) underscore = count_list s underscore"
  by (induction s) (auto simp: out_token_def is_reserved_simps)

lemma out_tokens_count_asterisk:
  "count_list (concat (map out_token s)) asterisk
     = count_list s asterisk + 2 * count_list s BOLD_MASK + count_list s ITALIC_MASK"
  by (induction s) (auto simp: out_token_def is_reserved_simps)

lemma match_span_decompose:
  assumes "match_span d s = Some (g, r)"
  shows "s = d @ g @ d @ r" and "underscore \<notin> set g" and "g \<noteq> []"
proof -
  define body where "body = drop (length d) s"
  from assms have sd: "take (length d) s = d" and g: "g = takeWhile span_char body"
    and rd: "take (length d) (dropWhile span_char body) = d"
    and r: "r = drop (length d) (dropWhile span_char body)" and "g \<noteq> []"
    by (auto simp: match_span_def Let_def body_def startswith_def split: if_splits)
  then show "g \<noteq> []" by simp
  have "s = take (length d) s @ body" by (simp add: body_def)
  also have "body = takeWhile span_char body @ dropWhile span_char body" by simp
  also have "dropWhile span_char body = take (length d) (dropWhile span_char body) @ r"
    by (simp add: r)
  finally show "s = d @ g @ d @ r" using sd g rd by simp
  show "underscore \<notin> set g"
    using set_takeWhileD [of underscore span_char body] by (auto simp: g span_char_def)
qed

lemma re_sub_span_match:
  "match_span d (c # cs) = Some (g, r) \<Longrightarrow>
     re_sub_span d m (c # cs) = m @ g @ m @ re_sub_span d m r"
  by simp

lemma re_sub_span_other_parity:
  "x \<notin> set d \<Longrightarrow> even (count_list (re_sub_span d m s) x + count_list s x)"
proof (induction d m s rule: re_sub_span.induct)
  case (1 delim mark)
  then show ?case by simp
next
  case (2 delim mark c cs)
  show ?case
  proof (cases "match_span delim (c # cs)")
    case None
    with 2 show ?thesis by simp
  next
    case (Some x2)
    obtain g r where x2: "x2 = (g, r)" by (cases x2)
    have m: "match_span delim (c # cs) = Some (g, r)" using Some x2 by simp
    have ih: "even (count_list (re_sub_span delim mark r) x + count_list r x)"
      using "2.IH"(2) [OF Some x2 [symmetric] "2.prems"] .
    have d0: "count_list delim x = 0" using "2.prems" by simp
    have res: "count_list (re_sub_span delim mark (c # cs)) x
        = 2 * count_list mark x + count_list g x + count_list (re_sub_span delim mark r) x"
      by (simp add: re_sub_span_match [OF m] del: re_sub_span.simps)
    have "count_list (c # cs) x = count_list (delim @ g @ delim @ r) x"
      using match_span_decompose(1) [OF m] by simp
    then have inp: "count_list (c # cs) x = 2 * 0 + count_list g x + count_list r x"
      using d0 by (simp only: count_list_append)
    show ?thesis unfolding res inp by (rule parity_drop_pairs) (rule ih)
  qed
qed

lemma re_sub_span_underscore_parity:
  "set d \<subseteq> {underscore} \<Longrightarrow> underscore \<notin> set m \<Longrightarrow>
     even (count_list (re_sub_span d m s) underscore + count_list s underscore)"
proof (induction d m s rule: re_sub_span.induct)
  case (1 delim mark)
  then show ?case by simp
next
  case (2 delim mark c cs)
  show ?case
  proof (cases "match_span delim (c # cs)")
    case None
    with 2 show ?thesis by simp
  next
    case (Some x2)
    obtain g r where x2: "x2 = (g, r)" by (cases x2)
    have m: "match_span delim (c # cs) = Some (g, r)" using Some x2 by simp
    have ih: "even (count_list (re_sub_span delim mark r) underscore + count_list r underscore)"
      using "2.IH"(2) [OF Some x2 [symmetric] "2.prems"] .
    have dl: "count_list delim underscore = length delim"
      using "2.prems"(1) by (induction delim) auto
    have g0: "count_list g underscore = 0"
      using match_span_decompose(2) [OF m] by simp
    have m0: "count_list mark underscore = 0" using "2.prems"(2) by simp
    have res: "count_list (re_sub_span delim mark (c # cs)) underscore
        = 2 * 0 + 0 + count_list (re_sub_span delim mark r) underscore"
      using g0 m0 by (simp add: re_sub_span_match [OF m] del: re_sub_span.simps)
    have "count_list (c # cs) underscore = count_list (delim @ g @ delim @ r) underscore"
      using match_span_decompose(1) [OF m] by simp
    then have inp: "count_list (c # cs) underscore = 2 * length delim + 0 + count_list r underscore"
      using dl g0 by (simp only: count_list_append)
    show ?thesis unfolding res inp by (rule parity_drop_pairs) (rule ih)
  qed
qed

lemma re_sub_span_count_same:
  "x \<notin> set d \<Longrightarrow> x \<notin> set m \<Longrightarrow> count_list (re_sub_span d m s) x = count_list s x"
proof (induction d m s rule: re_sub_span.induct)
  case (1 delim mark)
  then show ?case by simp
next
  case (2 delim mark c cs)
  show ?case
  proof (cases "match_span delim (c # cs)")
    case None
    with 2 show ?thesis by simp
  next
    case (Some x2)
    obtain g r where x2: "x2 = (g, r)" by (cases x2)
    have m: "match_span delim (c # cs) = Some (g, r)" using Some x2 by simp
    have ih: "count_list (re_sub_span delim mark r) x = count_list r x"
      using "2.IH"(2) [OF Some x2 [symmetric] "2.prems"] .
    have d0: "count_list delim x = 0" "count_list mark x = 0" using "2.prems" by simp_all
    have res: "count_list (re_sub_span delim mark (c # cs)) x
        = count_list g x + count_list (re_sub_span delim mark r) x"
      using d0 by (simp add: re_sub_span_match [OF m] del: re_sub_span.simps)
    have "count_list (c # cs) x = count_list (delim @ g @ delim @ r) x"
      using match_span_decompose(1) [OF m] by simp
    then have inp: "count_list (c # cs) x = count_list g x + count_list r x"
      using d0 by (simp only: count_list_append)
    show ?thesis unfolding res inp ih ..
  qed
qed

lemma parity_chain2:
  fixes a b c d :: nat
  shows "even (a + c) \<Longrightarrow> even (b + a) \<Longrightarrow> d = b \<Longrightarrow> even (d + c)"
  by presburger

lemma parity_markers:
  fixes a1 a2 a3 b2 b3 i ta :: nat
  shows "even (a1 + ta) \<Longrightarrow> even (a2 + a1) \<Longrightarrow> a3 + 2 * b3 = a2 + 2 * b2 \<Longrightarrow>
         even (0 + 2 * b3 + (i + a3) + ta + i)"
  by presburger

lemma masked_underscore_parity:
  "even (count_list (masked_text text) underscore + count_list text underscore)"
proof -
  define t1 where "t1 = re_sub_span [underscore, underscore] [asterisk, asterisk] text"
  define t2 where "t2 = re_sub_span [underscore] [asterisk] t1"
  have "even (count_list t1 underscore + count_list text underscore)"
    unfolding t1_def by (rule re_sub_span_underscore_parity) simp_all
  moreover have "even (count_list t2 underscore + count_list t1 underscore)"
    unfolding t2_def by (rule re_sub_span_underscore_parity) simp_all
  moreover have "count_list (masked_text text) underscore = count_list t2 underscore"
    by (simp add: masked_text_def t1_def t2_def py_replace_single_count_other
        py_replace_double_count_other)
  ultimately show ?thesis by (rule parity_chain2)
qed

lemma masked_marker_parity:
  "even (count_list (masked_text text) asterisk + 2 * count_list (masked_text text) BOLD_MASK
         + count_list (masked_text text) ITALIC_MASK
         + count_list text asterisk + count_list text ITALIC_MASK)"
proof -
  define t1 where "t1 = re_sub_span [underscore, underscore] [asterisk, asterisk] text"
  define t2 where "t2 = re_sub_span [underscore] [asterisk] t1"
  define t3 where "t3 = py_replace [asterisk, asterisk] [BOLD_MASK] t2"
  have m: "masked_text text = py_replace [asterisk] [ITALIC_MASK] t3"
    by (simp add: masked_text_def t1_def t2_def t3_def)
  have a1: "even (count_list t1 asterisk + count_list text asterisk)"
    unfolding t1_def by (rule re_sub_span_other_parity) simp
  have a2: "even (count_list t2 asterisk + count_list t1 asterisk)"
    unfolding t2_def by (rule re_sub_span_other_parity) simp
  have i2: "count_list t2 ITALIC_MASK = count_list text ITALIC_MASK"
    by (simp add: t1_def t2_def re_sub_span_count_same)
  have a3: "count_list t3 asterisk + 2 * count_list t3 BOLD_MASK
              = count_list t2 asterisk + 2 * count_list t2 BOLD_MASK"
    unfolding t3_def by (rule py_replace_double_counts) simp
  have i3: "count_list t3 ITALIC_MASK = count_list t2 ITALIC_MASK"
    unfolding t3_def by (rule py_replace_double_count_other) simp_all
  have a4: "count_list (masked_text text) asterisk = 0"
    unfolding m by (rule py_replace_single_count_old) simp
  have b4: "count_list (masked_text text) BOLD_MASK = count_list t3 BOLD_MASK"
    unfolding m by (rule py_replace_single_count_other) simp_all
  have i4: "count_list (masked_text text) ITALIC_MASK = count_list t3 ITALIC_MASK + count_list t3 asterisk"
    unfolding m by (rule py_replace_single_count_new) simp
  show ?thesis unfolding a4 b4 i4 i3 i2 by (rule parity_markers [OF a1 a2 a3])
qed

text \<open>
  Claim C6, as the code has it. When the number of underscores of the input is odd, an
  underscore is left over by the two substitutions: it appears in the output behind an
  escaping backslash, the output has an odd number of underscores and each of them is
  escaped, and the substitutions add asterisks in pairs only, so that an input without
  asterisks (and without the placeholder of the italic marker) has an even number of
  asterisks in the output. An asterisk of the input is another matter: it is masked and
  restored, never escaped.
\<close>

theorem unmatched_underscore_escaped:
  "odd (count_list raw underscore) \<Longrightarrow>
     (\<exists>before after. escape_md_v2_preserving_formatting raw
                        = before @ [backslash, underscore] @ after)
     \<and> odd (count_list (escape_md_v2_preserving_formatting raw) underscore)
     \<and> no_unescaped_reserved (escape_md_v2_preserving_formatting raw)
     \<and> (asterisk \<notin> set raw \<and> ITALIC_MASK \<notin> set raw
          \<longrightarrow> even (count_list (escape_md_v2_preserving_formatting raw) asterisk))"
proof -
  assume odd: "odd (count_list raw underscore)"
  let ?m = "masked_text raw"
  have om: "odd (count_list ?m underscore)"
    using masked_underscore_parity [of raw] odd by simp
  then have "underscore \<in> set ?m"
    by (metis count_list_0_iff even_zero)
  then obtain ys zs where "?m = ys @ underscore # zs" by (meson split_list)
  then have "escape_md_v2_preserving_formatting raw
      = concat (map out_token ys) @ [backslash, underscore] @ concat (map out_token zs)"
    by (simp add: formatter_tokens out_token_def is_reserved_simps)
  then have 1: "\<exists>before after. escape_md_v2_preserving_formatting raw
                        = before @ [backslash, underscore] @ after" by blast
  have 2: "odd (count_list (escape_md_v2_preserving_formatting raw) underscore)"
    using om by (simp add: formatter_tokens out_tokens_count_underscore)
  have 3: "asterisk \<notin> set raw \<and> ITALIC_MASK \<notin> set raw
          \<longrightarrow> even (count_list (escape_md_v2_preserving_formatting raw) asterisk)"
    using masked_marker_parity [of raw]
    by (auto simp: formatter_tokens out_tokens_count_asterisk)
  show ?thesis by (intro conjI 1 2 3 formatter_no_unescaped)
qed

theorem unmatched_underscore_escaped_witness:
  "odd (count_list [97, 95, 98] underscore)
   \<and> odd (count_list (escape_md_v2_preserving_formatting [97, 95, 98]) underscore)
   \<and> no_unescaped_reserved (escape_md_v2_preserving_formatting [97, 95, 98])"
proof -
  have h: "odd (count_list [97, 95, 98] underscore)" by simp
  from unmatched_underscore_escaped [OF h]
  have "odd (count_list (escape_md_v2_preserving_formatting [97, 95, 98]) underscore)"
    and "no_unescaped_reserved (escape_md_v2_preserving_formatting [97, 95, 98])"
    by (rule conjunct1 [OF conjunct2], rule conjunct1 [OF conjunct2 [OF conjunct2]])
  with h show ?thesis by (intro conjI)
qed

text \<open>
  The claim as stated fails for the asterisk: a text that is one asterisk, an unmatched
  emphasis marker, comes back unescaped, and the truncator reads it as an open italic span.
\<close>

theorem lone_asterisk_not_escaped:
  "odd (count_list [asterisk] asterisk)
   \<and> escape_md_v2_preserving_formatting [asterisk] = [asterisk]
   \<and> scan_loop (escape_md_v2_preserving_formatting [asterisk]) 1 0 0 0 (- 1) = (0, 1, - 1)"
proof -
  have e: "escape_md_v2_preserving_formatting [asterisk] = [asterisk]"
    by (simp add: formatter_eval)
  have "scan_loop [asterisk] 1 0 0 0 (- 1) = (0, 1, - 1)"
    by (simp add: scan_loop_single scan_loop_stop scan_loop_bold in_window_def bold_here_def
        italic_step_def safe_step_def)
  with e show ?thesis by simp
qed

section \<open>The truncator: open spans\<close>

text \<open>
  With the escape test of the truncator itself the cut at the last safe space closes every
  span: the loop run over the returned string ends with both flags at 0. The scan of the
  result agrees with the scan of the text up to the end of the stripped prefix, the stripped
  characters are whitespace, and the flags were 0 when the last safe space was recorded.
\<close>

lemma rstrip_decomp: "\<exists>w. x = rstrip x @ w \<and> (\<forall>c \<in> set w. py_isspace c)"
proof -
  have "rev x = takeWhile py_isspace (rev x) @ dropWhile py_isspace (rev x)" by simp
  then have "rev (rev x) = rev (takeWhile py_isspace (rev x) @ dropWhile py_isspace (rev x))"
    by simp
  then have "x = rev (dropWhile py_isspace (rev x)) @ rev (takeWhile py_isspace (rev x))"
    by (simp only: rev_rev_ident rev_append)
  moreover have "\<forall>c \<in> set (rev (takeWhile py_isspace (rev x))). py_isspace c"
    using set_takeWhileD [of _ py_isspace "rev x"] by auto
  ultimately show ?thesis unfolding rstrip_def by blast
qed

lemma take2_drop:
  assumes "i + 1 < length t"
  shows "take 2 (drop i t) = [t ! i, t ! (i + 1)]"
proof -
  have "drop i t = t ! i # drop (Suc i) t" using assms by (simp add: Cons_nth_drop_Suc)
  moreover have "drop (Suc i) t = t ! Suc i # drop (Suc (Suc i)) t"
    using assms by (simp add: Cons_nth_drop_Suc)
  ultimately show ?thesis by (simp add: numeral_2_eq_2)
qed

lemma bold_here_iff:
  "i + 1 < length t \<Longrightarrow>
     bold_here t i = (t ! i = asterisk \<and> t ! (i + 1) = asterisk
                      \<and> \<not> (i > 0 \<and> t ! (i - 1) = backslash))"
  by (simp add: bold_here_def take2_drop)

lemma step_agree:
  assumes iq: "i < q" and tk: "take q t = take q r" and lt: "q < length t" and lr: "q < length r"
    and tq: "t ! q \<noteq> asterisk" and rq: "r ! q \<noteq> asterisk"
  shows "bold_here t i = bold_here r i"
    and "italic_step t i oi = italic_step r i oi"
    and "bold_here t i \<Longrightarrow> i + 2 \<le> q"
proof -
  have eq: "t ! j = r ! j" if "j < q" for j
    using that tk by (metis nth_take)
  have i0: "t ! i = r ! i" "t ! (i - 1) = r ! (i - 1)" using iq by (auto intro: eq)
  have l1: "i + 1 < length t" "i + 1 < length r" using iq lt lr by simp_all
  have nx: "(t ! (i + 1) = asterisk) = (r ! (i + 1) = asterisk)"
  proof (cases "i + 1 = q")
    case True
    then show ?thesis using tq rq by simp
  next
    case False
    then have "i + 1 < q" using iq by simp
    then show ?thesis using eq by simp
  qed
  show "bold_here t i = bold_here r i"
    using l1 i0 nx by (simp add: bold_here_iff)
  show "italic_step t i oi = italic_step r i oi"
    using l1 i0 nx by (auto simp: italic_step_def)
  show "i + 2 \<le> q" if "bold_here t i"
  proof -
    from that have "t ! (i + 1) = asterisk" using l1 by (simp add: bold_here_iff)
    then have "i + 1 \<noteq> q" using tq by auto
    then show ?thesis using iq by simp
  qed
qed

lemma scan_agree:
  assumes tk: "take q t = take q r"
    and wt: "int q < min (int (length t)) lt" and wr: "int q < min (int (length r)) lr"
    and tq: "t ! q \<noteq> asterisk" and rq: "r ! q \<noteq> asterisk"
  shows "i \<le> q \<Longrightarrow>
     \<exists>ob' oi' l1 l2.
       scan_loop t lt i ob oi lss1 = scan_loop t lt q ob' oi' l1
       \<and> scan_loop r lr i ob oi lss2 = scan_loop r lr q ob' oi' l2
       \<and> (l1 = lss1 \<or> l1 < int q)"
proof (induction "q - i" arbitrary: i ob oi lss1 lss2 rule: less_induct)
  case less
  show ?case
  proof (cases "i = q")
    case True
    then show ?thesis by blast
  next
    case False
    then have iq: "i < q" using less.prems by simp
    have lens: "q < length t" "q < length r" using wt wr by simp_all
    have win: "in_window t lt i" "in_window r lr i"
      using iq wt wr by (simp_all add: in_window_def)
    note sa = step_agree [OF iq tk lens tq rq]
    show ?thesis
    proof (cases "bold_here t i")
      case True
      then have br: "bold_here r i" using sa(1) by simp
      have i2: "i + 2 \<le> q" using sa(3) [OF True] .
      have "q - (i + 2) < q - i" using iq by simp
      from less.hyps [OF this i2, of "ob XOR 1" oi lss1 lss2]
      obtain ob' oi' l1 l2 where
        "scan_loop t lt (i + 2) (ob XOR 1) oi lss1 = scan_loop t lt q ob' oi' l1"
        "scan_loop r lr (i + 2) (ob XOR 1) oi lss2 = scan_loop r lr q ob' oi' l2"
        "l1 = lss1 \<or> l1 < int q" by blast
      then have "scan_loop t lt i ob oi lss1 = scan_loop t lt q ob' oi' l1
         \<and> scan_loop r lr i ob oi lss2 = scan_loop r lr q ob' oi' l2
         \<and> (l1 = lss1 \<or> l1 < int q)"
        by (simp add: scan_loop_bold [OF win(1) True] scan_loop_bold [OF win(2) br])
      then show ?thesis by blast
    next
      case False
      then have br: "\<not> bold_here r i" using sa(1) by simp
      define oi2 where "oi2 = italic_step t i oi"
      have oi2r: "italic_step r i oi = oi2" using sa(2) [of oi] by (simp add: oi2_def)
      define s1 where "s1 = safe_step t i ob oi2 lss1"
      define s2 where "s2 = safe_step r i ob oi2 lss2"
      have s1b: "s1 = lss1 \<or> s1 < int q" using iq by (auto simp: s1_def safe_step_def)
      have "q - (i + 1) < q - i" using iq by simp
      moreover have "i + 1 \<le> q" using iq by simp
      ultimately obtain ob' oi' l1 l2 where
        a: "scan_loop t lt (i + 1) ob oi2 s1 = scan_loop t lt q ob' oi' l1"
        and b: "scan_loop r lr (i + 1) ob oi2 s2 = scan_loop r lr q ob' oi' l2"
        and c: "l1 = s1 \<or> l1 < int q"
        using less.hyps [of "i + 1" ob oi2 s1 s2] by blast
      have "scan_loop t lt i ob oi lss1 = scan_loop t lt q ob' oi' l1"
        using a by (simp add: scan_loop_single [OF win(1) False] oi2_def s1_def)
      moreover have "scan_loop r lr i ob oi lss2 = scan_loop r lr q ob' oi' l2"
        using b by (simp add: scan_loop_single [OF win(2) br] oi2r s2_def)
      moreover have "l1 = lss1 \<or> l1 < int q" using c s1b by auto
      ultimately show ?thesis by blast
    qed
  qed
qed

lemma scan_inert_run:
  "i \<le> p \<Longrightarrow> (\<forall>j. i \<le> j \<and> j < p \<longrightarrow> t ! j \<noteq> asterisk) \<Longrightarrow>
   int p \<le> min (int (length t)) lt \<Longrightarrow>
     \<exists>l'. scan_loop t lt i ob oi l = scan_loop t lt p ob oi l' \<and> (l' = l \<or> l' < int p)"
proof (induction "p - i" arbitrary: i l rule: less_induct)
  case less
  show ?case
  proof (cases "i = p")
    case True
    then show ?thesis by blast
  next
    case False
    then have ip: "i < p" using less.prems(1) by simp
    have win: "in_window t lt i" using ip less.prems(3) by (simp add: in_window_def)
    have ti: "t ! i \<noteq> asterisk" using less.prems(2) ip by simp
    have il: "i < length t" using ip less.prems(3) by simp
    have nb: "\<not> bold_here t i"
    proof
      assume "bold_here t i"
      then have "i + 1 < length t" "take 2 (drop i t) = [asterisk, asterisk]"
        by (simp_all add: bold_here_def)
      then have "t ! i = asterisk" by (simp add: take2_drop)
      with ti show False by simp
    qed
    have it: "italic_step t i oi = oi" using ti by (simp add: italic_step_def)
    define s1 where "s1 = safe_step t i ob oi l"
    have s1b: "s1 = l \<or> s1 < int p" using ip by (auto simp: s1_def safe_step_def)
    have "p - (i + 1) < p - i" using ip by simp
    moreover have "i + 1 \<le> p" using ip by simp
    moreover have "\<forall>j. i + 1 \<le> j \<and> j < p \<longrightarrow> t ! j \<noteq> asterisk" using less.prems(2) by simp
    ultimately obtain l' where
      a: "scan_loop t lt (i + 1) ob oi s1 = scan_loop t lt p ob oi l'" and b: "l' = s1 \<or> l' < int p"
      using less.hyps [of "i + 1" s1] less.prems(3) by blast
    have "scan_loop t lt i ob oi l = scan_loop t lt p ob oi l'"
      using a by (simp add: scan_loop_single [OF win nb] it s1_def)
    moreover have "l' = l \<or> l' < int p" using b s1b by auto
    ultimately show ?thesis by blast
  qed
qed

lemma last_safe_flags:
  assumes run: "scan_loop t lt p ob oi l = (obF, oiF, int p)" and l: "l < int p"
  shows "ob = 0 \<and> oi = 0"
proof (cases "in_window t lt p")
  case False
  with run l show ?thesis by (simp add: scan_loop_stop)
next
  case win: True
  show ?thesis
  proof (cases "bold_here t p")
    case True
    with win run have "scan_loop t lt (p + 2) (ob XOR 1) oi l = (obF, oiF, int p)"
      by (simp add: scan_loop_bold)
    from scan_loop_last_safe_range [OF this] l show ?thesis by auto
  next
    case False
    with win run have "scan_loop t lt (p + 1) ob (italic_step t p oi)
         (safe_step t p ob (italic_step t p oi) l) = (obF, oiF, int p)"
      by (simp add: scan_loop_single)
    from scan_loop_last_safe_range [OF this]
    have "int p = safe_step t p ob (italic_step t p oi) l" by auto
    with l have "t ! p = space_ch \<and> ob = 0 \<and> italic_step t p oi = 0"
      by (auto simp: safe_step_def split: if_splits)
    then show ?thesis by (auto simp: italic_step_def split: if_splits)
  qed
qed

lemma isspace_not_asterisk: "py_isspace c \<Longrightarrow> c \<noteq> asterisk"
  by (auto simp: py_isspace_def)

lemma truncate_closes_scanned_spans:
  assumes long: "limit < int (length s)"
    and run: "scan_loop s limit 0 0 0 (- 1) = (obF, oiF, pz)" and found: "pz \<noteq> - 1"
  shows "scanned_open_spans (truncate_markdown_v2_safely s limit) = (0, 0)"
proof -
  from scan_loop_last_safe_range [OF run] found
  have pz: "0 \<le> pz" "pz < min (int (length s)) limit" "s ! nat pz = space_ch" by auto
  define p where "p = nat pz"
  have pp: "pz = int p" "p < length s" "int p < limit" using pz by (auto simp: p_def)
  define x where "x = take p s"
  obtain w where w: "x = rstrip x @ w" "\<forall>c \<in> set w. py_isspace c"
    using rstrip_decomp [of x] by blast
  define q where "q = length (rstrip x)"
  have lx: "length x = p" using pp by (simp add: x_def)
  have qp: "q \<le> p" using w(1) lx by (metis q_def le_add1 length_append)
  have rq: "rstrip x = take q s"
  proof -
    have "take q x = rstrip x" using w(1) by (metis q_def append_eq_conv_conj)
    moreover have "take q x = take q s" using qp by (simp add: x_def min_def)
    ultimately show ?thesis by simp
  qed
  have mid: "s ! j \<noteq> asterisk" if "q \<le> j" "j < p" for j
  proof -
    have "s ! j = x ! j" using that by (simp add: x_def)
    also have "\<dots> = (rstrip x @ w) ! j" using w(1) by simp
    also have "\<dots> = w ! (j - q)" using that by (simp add: nth_append q_def)
    finally have "s ! j = w ! (j - q)" .
    moreover have "j - q < length w" using that w(1) lx
      by (metis q_def add_diff_inverse_nat length_append less_diff_conv2 not_less add.commute)
    ultimately have "s ! j \<in> set w" by (metis nth_mem)
    then show ?thesis using w(2) isspace_not_asterisk by blast
  qed
  have sp: "s ! p \<noteq> asterisk" using pz(3) by (simp add: p_def)
  have sq: "s ! q \<noteq> asterisk" using mid [of q] sp qp by (cases "q = p") auto
  define r where "r = take q s @ [ellipsis]"
  have res: "truncate_markdown_v2_safely s limit = r"
    using long run found pz(1)
    by (simp add: truncate_markdown_v2_safely_def py_prefix_def r_def rq [symmetric] x_def p_def)
  have qs: "q < length s" using qp pp by simp
  have lr: "length r = q + 1" using qs by (simp add: r_def)
  have rqe: "r ! q = ellipsis" using qs by (simp add: r_def nth_append)
  have tk: "take q s = take q r" using qs by (simp add: r_def)
  have wt: "int q < min (int (length s)) limit" using qp pp by simp
  have wr: "int q < min (int (length r)) (int (length r))" by (simp add: lr)
  have rqa: "r ! q \<noteq> asterisk" by (simp add: rqe)
  from scan_agree [OF tk wt wr sq rqa, of 0 0 0 "- 1" "- 1"]
  obtain ob' oi' l1 l2 where
    a: "scan_loop s limit 0 0 0 (- 1) = scan_loop s limit q ob' oi' l1"
    and b: "scan_loop r (int (length r)) 0 0 0 (- 1) = scan_loop r (int (length r)) q ob' oi' l2"
    and c: "l1 = - 1 \<or> l1 < int q" by auto
  have "int p \<le> min (int (length s)) limit" using pp by simp
  with scan_inert_run [OF qp, of s limit ob' oi' l1] mid
  obtain l' where d: "scan_loop s limit q ob' oi' l1 = scan_loop s limit p ob' oi' l'"
    and e: "l' = l1 \<or> l' < int p" by blast
  have lp: "l' < int p" using c e qp by auto
  have "scan_loop s limit p ob' oi' l' = (obF, oiF, int p)" using run a d pp(1) by simp
  from last_safe_flags [OF this lp] have z: "ob' = 0" "oi' = 0" by simp_all
  have winq: "in_window r (int (length r)) q" by (simp add: in_window_def lr)
  have nb: "\<not> bold_here r q" by (simp add: bold_here_def lr)
  have "scan_loop r (int (length r)) q 0 0 l2 = scan_loop r (int (length r)) (q + 1) 0 0 l2"
    using scan_loop_single [OF winq nb, of 0 0 l2]
    by (simp add: italic_step_def safe_step_def rqe)
  also have "\<dots> = (0, 0, l2)" by (rule scan_loop_stop) (simp add: in_window_def lr)
  finally have "scan_loop r (int (length r)) 0 0 0 (- 1) = (0, 0, l2)" using b z by simp
  then show ?thesis by (simp add: scanned_open_spans_def res)
qed

text \<open>
  That escape test is not the one of the syntax. Characters that are neither markers nor
  backslashes pass through the formatter and through both readings unchanged, which lets a
  long post be evaluated.
\<close>

lemma formatter_plain_cons:
  assumes "\<not> is_reserved c" "c \<noteq> asterisk" "c \<noteq> backslash" "c \<noteq> BOLD_MASK" "c \<noteq> ITALIC_MASK"
  shows "escape_md_v2_preserving_formatting (c # s) = c # escape_md_v2_preserving_formatting s"
proof -
  have "c \<noteq> underscore" using assms(1) is_reserved_simps(5) by blast
  then show ?thesis
    using assms
    by (simp add: escape_md_v2_preserving_formatting_def Let_def match_span_def startswith_def
        escape_reserved_def)
qed

lemma formatter_plain_prefix:
  assumes "\<not> is_reserved c" "c \<noteq> asterisk" "c \<noteq> backslash" "c \<noteq> BOLD_MASK" "c \<noteq> ITALIC_MASK"
  shows "escape_md_v2_preserving_formatting (replicate n c @ s)
           = replicate n c @ escape_md_v2_preserving_formatting s"
  by (induction n) (simp_all add: formatter_plain_cons [OF assms])

lemma unescaped_markers_plain_cons:
  "c \<noteq> asterisk \<Longrightarrow> c \<noteq> backslash \<Longrightarrow> unescaped_markers (c # s) = unescaped_markers s"
  by (cases s) simp_all

lemma unescaped_markers_plain_prefix:
  "c \<noteq> asterisk \<Longrightarrow> c \<noteq> backslash \<Longrightarrow>
     unescaped_markers (replicate n c @ s) = unescaped_markers s"
  by (induction n) (simp_all add: unescaped_markers_plain_cons)

lemma scan_plain_run:
  "i \<le> p \<Longrightarrow> (\<forall>j. i \<le> j \<and> j < p \<longrightarrow> t ! j \<noteq> asterisk \<and> t ! j \<noteq> space_ch) \<Longrightarrow>
   int p \<le> min (int (length t)) lt \<Longrightarrow>
     scan_loop t lt i ob oi l = scan_loop t lt p ob oi l"
proof (induction "p - i" arbitrary: i rule: less_induct)
  case less
  show ?case
  proof (cases "i = p")
    case True
    then show ?thesis by simp
  next
    case False
    then have ip: "i < p" using less.prems(1) by simp
    have win: "in_window t lt i" using ip less.prems(3) by (simp add: in_window_def)
    have ti: "t ! i \<noteq> asterisk" "t ! i \<noteq> space_ch" using less.prems(2) ip by simp_all
    have nb: "\<not> bold_here t i"
    proof
      assume "bold_here t i"
      then have "i + 1 < length t" "take 2 (drop i t) = [asterisk, asterisk]"
        by (simp_all add: bold_here_def)
      then have "t ! i = asterisk" by (simp add: take2_drop)
      with ti show False by simp
    qed
    have it: "italic_step t i oi = oi" using ti by (simp add: italic_step_def)
    have sf: "safe_step t i ob oi l = l" using ti by (simp add: safe_step_def)
    have "p - (i + 1) < p - i" using ip by simp
    moreover have "i + 1 \<le> p" using ip by simp
    moreover have "\<forall>j. i + 1 \<le> j \<and> j < p \<longrightarrow> t ! j \<noteq> asterisk \<and> t ! j \<noteq> space_ch"
      using less.prems(2) by simp
    ultimately have "scan_loop t lt (i + 1) ob oi l = scan_loop t lt p ob oi l"
      using less.hyps [of "i + 1"] less.prems(3) by blast
    then show ?thesis by (simp add: scan_loop_single [OF win nb] it sf)
  qed
qed

lemma bug_post_escaped:
  "escape_md_v2_preserving_formatting bug_post = replicate 975 100 @ bug_escaped"
proof -
  have "escape_md_v2_preserving_formatting bug_raw = bug_escaped"
    by (simp add: bug_raw_def bug_escaped_def formatter_eval)
  moreover have "escape_md_v2_preserving_formatting (replicate 975 100 @ bug_raw)
      = replicate 975 100 @ escape_md_v2_preserving_formatting bug_raw"
    by (rule formatter_plain_prefix) (simp_all add: is_reserved_def reserved_chars_def)
  ultimately show ?thesis by (simp add: bug_post_def)
qed

lemma bug_post_scan:
  "scan_loop (replicate 975 100 @ bug_escaped) 984 0 0 0 (- 1) = (0, 0, 981)"
proof -
  let ?t = "replicate 975 100 @ bug_escaped"
  have len: "length ?t = 991" by (simp add: bug_escaped_def)
  have "scan_loop ?t 984 0 0 0 (- 1) = scan_loop ?t 984 975 0 0 (- 1)"
  proof (rule scan_plain_run)
    show "(0::nat) \<le> 975" by simp
    show "\<forall>j. 0 \<le> j \<and> j < 975 \<longrightarrow> ?t ! j \<noteq> asterisk \<and> ?t ! j \<noteq> space_ch"
      by (simp add: nth_append)
    show "int 975 \<le> min (int (length ?t)) 984" by (simp add: len)
  qed
  also have "\<dots> = (0, 0, 981)"
    by (simp add: scan_eval nth_append bug_escaped_def)
  finally show ?thesis .
qed

lemma bug_post_truncated:
  "truncate_markdown_v2_safely (replicate 975 100 @ bug_escaped) 984
     = replicate 975 100 @ [97, 32, 92, 92, 42, 98, ellipsis]"
  using bug_post_scan
  by (simp add: truncate_markdown_v2_safely_def py_prefix_def rstrip_def py_isspace_def
      bug_escaped_def)

text \<open>
  Claim C4 fails on the code. The post is 975 letters followed by \<open>a \*b c\* dddd\<close>; the
  formatter escapes the two backslashes and leaves the asterisks as italic markers, so the
  escaped text has 991 characters and two italic markers, and the space at index 976 is
  outside every span. With the link of 40 characters the caption is cut with limit 984. The
  loop takes each asterisk for an escaped one, because the character before it is a
  backslash, records the space at index 981, inside the italic span, as the last safe space
  and cuts there: the caption sent begins with a text that has one italic marker, an odd
  number.
\<close>

theorem truncation_opens_span_behind_escaped_backslash:
  "escape_md_v2_preserving_formatting bug_post = replicate 975 100 @ bug_escaped
   \<and> unescaped_markers (replicate 975 100 @ bug_escaped) = (0, 2)
   \<and> (replicate 975 100 @ bug_escaped) ! 976 = space_ch
   \<and> unescaped_markers (take 976 (replicate 975 100 @ bug_escaped)) = (0, 0)
   \<and> scan_loop (replicate 975 100 @ bug_escaped) 984 0 0 0 (- 1) = (0, 0, 981)
   \<and> final_caption_md2 example_link bug_post
       = (replicate 975 100 @ [97, 32, 92, 92, 42, 98, ellipsis]) @ link_md2 example_link
   \<and> unescaped_markers (replicate 975 100 @ [97, 32, 92, 92, 42, 98, ellipsis]) = (0, 1)"
proof -
  have 2: "unescaped_markers (replicate 975 100 @ bug_escaped) = (0, 2)"
    by (simp add: unescaped_markers_plain_prefix bug_escaped_def)
  have 3: "(replicate 975 100 @ bug_escaped) ! 976 = space_ch"
    by (simp add: nth_append bug_escaped_def)
  have 4: "unescaped_markers (take 976 (replicate 975 100 @ bug_escaped)) = (0, 0)"
    by (simp add: unescaped_markers_plain_prefix bug_escaped_def)
  have l: "length (link_md2 example_link) = 40" by (simp add: link_md2_def example_link_def)
  have 6: "final_caption_md2 example_link bug_post
       = (replicate 975 100 @ [97, 32, 92, 92, 42, 98, ellipsis]) @ link_md2 example_link"
    by (simp add: final_caption_md2_def prepare_markdown_v2_def Let_def bug_post_escaped l
        bug_post_truncated) (simp add: bug_escaped_def)
  have 7: "unescaped_markers (replicate 975 100 @ [97, 32, 92, 92, 42, 98, ellipsis]) = (0, 1)"
    by (simp add: unescaped_markers_plain_prefix)
  from bug_post_escaped 2 3 4 bug_post_scan 6 7 show ?thesis by (intro conjI)
qed

section \<open>Properties of the delivery chain\<close>

text \<open>
  Claim C1, as the code has it. With an image present, when the image is downloaded for the
  second strategy and the send by remote URL, the send of the downloaded file, the
  rich-text message and the plain message each raise \<open>TelegramError\<close>, the run makes exactly
  these four delivery calls in this order, the function returns without raising, and the
  last thing it does is to log the failure at critical severity.
\<close>

theorem delivery_chain_exhausted:
  assumes "url \<noteq> []"
    and "send_photo tr (RemoteUrl url) (final_caption_md2 cl post) MarkdownV2 = Raises TelegramError"
    and "build_input_file_from_url tr url = Some file"
    and "send_photo tr (Upload file) (final_caption_md2 cl post) MarkdownV2 = Raises TelegramError"
    and "send_message tr (final_text_md2 cl post) (Some MarkdownV2) = Raises TelegramError"
    and "send_message tr (plain_text cl post) None = Raises TelegramError"
  shows "snd (send_to_telegram tr cl post (Some url)) = None
    \<and> delivery_attempts (fst (send_to_telegram tr cl post (Some url)))
        = [RemotePhoto, ReuploadedPhoto, RichText, PlainText]
    \<and> filter (\<lambda>e. strategy_of e \<noteq> None) (fst (send_to_telegram tr cl post (Some url)))
        = [SendPhoto (RemoteUrl url) (final_caption_md2 cl post) MarkdownV2,
           SendPhoto (Upload file) (final_caption_md2 cl post) MarkdownV2,
           SendMessage (final_text_md2 cl post) (Some MarkdownV2),
           SendMessage (plain_text cl post) None]
    \<and> last (fst (send_to_telegram tr cl post (Some url))) = Log CRITICAL PlainFailed"
  using assms
  by (simp add: send_to_telegram_def photo_stage_def text_stage_def Let_def
      delivery_attempts_def List.map_filter_def)

theorem delivery_chain_exhausted_witness:
  "delivery_attempts (fst (send_to_telegram failing_transport [116] [97] (Some [104])))
        = [RemotePhoto, ReuploadedPhoto, RichText, PlainText]
   \<and> last (fst (send_to_telegram failing_transport [116] [97] (Some [104]))) = Log CRITICAL PlainFailed"
proof -
  have b: "build_input_file_from_url failing_transport [104]
             = Some (InputFile [1, 2, 3] (ascii ''image.png''))"
    by code_simp
  show ?thesis
    using delivery_chain_exhausted [of "[104]" failing_transport "[116]" "[97]", OF _ _ b]
    by (simp add: failing_transport_def)
qed

text \<open>
  When the download of the image fails instead, the second strategy ends without a send
  (the code raises \<open>TelegramError\<close> itself) and the run goes on to the two text messages.
\<close>

lemma delivery_download_fails:
  assumes "url \<noteq> []"
    and "send_photo tr (RemoteUrl url) (final_caption_md2 cl post) MarkdownV2 = Raises TelegramError"
    and "build_input_file_from_url tr url = None"
    and "send_message tr (final_text_md2 cl post) (Some MarkdownV2) = Raises TelegramError"
    and "send_message tr (plain_text cl post) None = Raises TelegramError"
  shows "snd (send_to_telegram tr cl post (Some url)) = None
    \<and> delivery_attempts (fst (send_to_telegram tr cl post (Some url)))
        = [RemotePhoto, RichText, PlainText]
    \<and> HttpGet url \<in> set (fst (send_to_telegram tr cl post (Some url)))
    \<and> last (fst (send_to_telegram tr cl post (Some url))) = Log CRITICAL PlainFailed"
  using assms
  by (simp add: send_to_telegram_def photo_stage_def text_stage_def Let_def
      delivery_attempts_def List.map_filter_def)

text \<open>
  The claim as stated fails there: with a transport on which the download fails and every
  send raises \<open>TelegramError\<close>, each of the four strategies ends in \<open>TelegramError\<close>, but the
  run makes three delivery calls, not four; it still ends with the critical log record.
\<close>

theorem failed_download_makes_three_attempts:
  "send_photo offline_transport (RemoteUrl [104]) (final_caption_md2 [116] [97]) MarkdownV2
     = Raises TelegramError
   \<and> build_input_file_from_url offline_transport [104] = None
   \<and> send_message offline_transport (final_text_md2 [116] [97]) (Some MarkdownV2)
       = Raises TelegramError
   \<and> send_message offline_transport (plain_text [116] [97]) None = Raises TelegramError
   \<and> snd (send_to_telegram offline_transport [116] [97] (Some [104])) = None
   \<and> delivery_attempts (fst (send_to_telegram offline_transport [116] [97] (Some [104])))
       = [RemotePhoto, RichText, PlainText]
   \<and> last (fst (send_to_telegram offline_transport [116] [97] (Some [104])))
       = Log CRITICAL PlainFailed"
proof -
  have b: "build_input_file_from_url offline_transport [104] = None"
    by (simp add: build_input_file_from_url_def offline_transport_def)
  have s: "send_photo offline_transport (RemoteUrl [104]) (final_caption_md2 [116] [97]) MarkdownV2
             = Raises TelegramError"
    "send_message offline_transport (final_text_md2 [116] [97]) (Some MarkdownV2)
       = Raises TelegramError"
    "send_message offline_transport (plain_text [116] [97]) None = Raises TelegramError"
    by (simp_all add: offline_transport_def)
  have n: "[104::nat] \<noteq> []" by simp
  from delivery_download_fails [OF n s(1) b s(2) s(3)]
  have "snd (send_to_telegram offline_transport [116] [97] (Some [104])) = None"
    and "delivery_attempts (fst (send_to_telegram offline_transport [116] [97] (Some [104])))
       = [RemotePhoto, RichText, PlainText]"
    and "last (fst (send_to_telegram offline_transport [116] [97] (Some [104])))
       = Log CRITICAL PlainFailed"
    by simp_all
  with b s show ?thesis by (intro conjI)
qed

lemma endswith_last: "endswith s p \<Longrightarrow> p \<noteq> [] \<Longrightarrow> last s = last p"
proof -
  assume e: "endswith s p" and p: "p \<noteq> []"
  from e have "s = take (length s - length p) s @ p"
    unfolding endswith_def by (metis append_take_drop_id)
  then have "last s = last (take (length s - length p) s @ p)" by simp
  also have "\<dots> = last p" using p by simp
  finally show ?thesis .
qed

lemma send_events_payload:
  "e \<in> set (fst (send_to_telegram tr cl post img)) \<Longrightarrow>
     (case e of
        SendPhoto p c m \<Rightarrow> c = final_caption_md2 cl post
      | SendMessage t (Some m) \<Rightarrow> t = final_text_md2 cl post
      | SendMessage t None \<Rightarrow> t = plain_text cl post
      | _ \<Rightarrow> True)"
  by (auto simp: send_to_telegram_def photo_stage_def text_stage_def Let_def
      split: option.splits outcome.splits exn.splits if_splits prod.splits)

lemma re_sub_span_no_underscore:
  "underscore \<notin> set s \<Longrightarrow> re_sub_span (underscore # d) m s = s"
  by (induction s) (auto simp: match_span_def startswith_def)

lemma py_replace_absent:
  "c \<notin> set s \<Longrightarrow> py_replace (c # old) new s = s"
  by (induction s) (auto simp: startswith_def)

lemma escape_reserved_plain:
  "\<forall>c \<in> set s. \<not> is_reserved c \<Longrightarrow> escape_reserved s = s"
  unfolding escape_reserved_def by (induction s) auto

lemma formatter_plain_identity:
  assumes "\<forall>c \<in> set s. \<not> is_reserved c"
    and "asterisk \<notin> set s" and "backslash \<notin> set s"
    and "BOLD_MASK \<notin> set s" and "ITALIC_MASK \<notin> set s"
  shows "escape_md_v2_preserving_formatting s = s"
proof -
  have "underscore \<notin> set s" using assms(1) is_reserved_simps(5) by blast
  then show ?thesis
    using assms
    by (simp add: escape_md_v2_preserving_formatting_def re_sub_span_no_underscore
        py_replace_absent escape_reserved_plain del: py_replace.simps re_sub_span.simps)
qed

text \<open>
  Claim C5, as the code has it. In the three states that send escaped text (the two photo
  states and the rich-text message) the text sent is the escaped body, truncated if needed,
  followed by the whole link: the link is appended after the truncation and the limit given
  to the truncator is the limit of the state (1024 or 4096) minus the length of the link.
  With an escaped body of 1100 characters and a link of 40 characters the caption is cut
  with limit 984, fits in 1024 characters, and the truncated body has at most 985
  characters and ends in the ellipsis.
\<close>

theorem link_appended_after_truncation:
  "(e \<in> set (fst (send_to_telegram tr cl post img)) \<longrightarrow>
      (case e of
         SendPhoto p c m \<Rightarrow> c = final_caption_md2 cl post
       | SendMessage t (Some m) \<Rightarrow> t = final_text_md2 cl post
       | _ \<Rightarrow> True))
   \<and> final_caption_md2 cl post =
       (if length (escape_md_v2_preserving_formatting post) + length (link_md2 cl) > 1024
        then truncate_markdown_v2_safely (escape_md_v2_preserving_formatting post)
               (1024 - int (length (link_md2 cl)))
        else escape_md_v2_preserving_formatting post) @ link_md2 cl
   \<and> final_text_md2 cl post =
       (if length (escape_md_v2_preserving_formatting post) + length (link_md2 cl) > 4096
        then truncate_markdown_v2_safely (escape_md_v2_preserving_formatting post)
               (4096 - int (length (link_md2 cl)))
        else escape_md_v2_preserving_formatting post) @ link_md2 cl
   \<and> (length (escape_md_v2_preserving_formatting post) = 1100 \<and> length (link_md2 cl) = 40 \<longrightarrow>
        caption_truncated cl post
        \<and> final_caption_md2 cl post
            = truncate_markdown_v2_safely (escape_md_v2_preserving_formatting post) 984 @ link_md2 cl
        \<and> length (final_caption_md2 cl post) \<le> 1024
        \<and> length (truncate_markdown_v2_safely (escape_md_v2_preserving_formatting post) 984) \<le> 985
        \<and> last (truncate_markdown_v2_safely (escape_md_v2_preserving_formatting post) 984) = ellipsis)"
proof -
  let ?b = "escape_md_v2_preserving_formatting post"
  have 1: "e \<in> set (fst (send_to_telegram tr cl post img)) \<longrightarrow>
      (case e of
         SendPhoto p c m \<Rightarrow> c = final_caption_md2 cl post
       | SendMessage t (Some m) \<Rightarrow> t = final_text_md2 cl post
       | _ \<Rightarrow> True)"
    using send_events_payload [of e tr cl post img]
    by (auto split: event.splits option.splits)
  have 2: "final_caption_md2 cl post =
       (if length ?b + length (link_md2 cl) > 1024
        then truncate_markdown_v2_safely ?b (1024 - int (length (link_md2 cl)))
        else ?b) @ link_md2 cl"
    by (simp add: final_caption_md2_def prepare_markdown_v2_def Let_def)
  have 3: "final_text_md2 cl post =
       (if length ?b + length (link_md2 cl) > 4096
        then truncate_markdown_v2_safely ?b (4096 - int (length (link_md2 cl)))
        else ?b) @ link_md2 cl"
    by (simp add: final_text_md2_def prepare_markdown_v2_def Let_def)
  have 4: "caption_truncated cl post
        \<and> final_caption_md2 cl post = truncate_markdown_v2_safely ?b 984 @ link_md2 cl
        \<and> length (final_caption_md2 cl post) \<le> 1024
        \<and> length (truncate_markdown_v2_safely ?b 984) \<le> 985
        \<and> last (truncate_markdown_v2_safely ?b 984) = ellipsis"
    if h: "length ?b = 1100" "length (link_md2 cl) = 40"
  proof -
    have "984 < int (length ?b)" using h by simp
    from truncate_long [OF this]
    have len: "length (truncate_markdown_v2_safely ?b 984) \<le> 984"
      and la: "last (truncate_markdown_v2_safely ?b 984) = ellipsis" by simp_all
    have c: "final_caption_md2 cl post = truncate_markdown_v2_safely ?b 984 @ link_md2 cl"
      using h by (simp add: 2)
    show ?thesis using h len la c
      by (simp add: caption_truncated_def prepare_markdown_v2_def)
  qed
  from 1 2 3 4 show ?thesis by blast
qed

theorem link_appended_after_truncation_witness:
  "SendMessage (final_text_md2 example_link (replicate 1100 97)) (Some MarkdownV2)
     \<in> set (fst (send_to_telegram failing_transport example_link (replicate 1100 97) None))
   \<and> length (escape_md_v2_preserving_formatting (replicate 1100 97)) = 1100
   \<and> length (link_md2 example_link) = 40
   \<and> length (final_caption_md2 example_link (replicate 1100 97)) \<le> 1024
   \<and> last (truncate_markdown_v2_safely
              (escape_md_v2_preserving_formatting (replicate 1100 97)) 984) = ellipsis"
proof -
  have f: "escape_md_v2_preserving_formatting (replicate 1100 97) = replicate 1100 97"
    by (rule formatter_plain_identity) (simp_all add: is_reserved_def reserved_chars_def)
  have h1: "length (escape_md_v2_preserving_formatting (replicate 1100 97)) = 1100"
    by (simp only: f length_replicate)
  have h2: "length (link_md2 example_link) = 40"
    by (simp add: link_md2_def example_link_def)
  have m: "SendMessage (final_text_md2 example_link (replicate 1100 97)) (Some MarkdownV2)
     \<in> set (fst (send_to_telegram failing_transport example_link (replicate 1100 97) None))"
    by (simp add: send_to_telegram_def text_stage_def failing_transport_def Let_def)
  from link_appended_after_truncation
    [of "SendMessage (final_text_md2 example_link (replicate 1100 97)) (Some MarkdownV2)"
        failing_transport example_link "replicate 1100 97" None]
  have "length (escape_md_v2_preserving_formatting (replicate 1100 97)) = 1100
          \<and> length (link_md2 example_link) = 40 \<longrightarrow>
        length (final_caption_md2 example_link (replicate 1100 97)) \<le> 1024
        \<and> last (truncate_markdown_v2_safely
              (escape_md_v2_preserving_formatting (replicate 1100 97)) 984) = ellipsis"
    by blast
  with h1 h2 m show ?thesis by blast
qed

text \<open>
  The claim as stated fails in the plain-text state: there the link is appended before the
  text is cut at 4092 characters, and a body of 5000 characters is sent without it.
\<close>

theorem plain_text_link_cut:
  "length (replicate 5000 97 @ plain_text_link example_link) > 4096
   \<and> plain_text example_link (replicate 5000 97) = replicate 4092 97 @ ascii ''...''
   \<and> \<not> endswith (plain_text example_link (replicate 5000 97)) (plain_text_link example_link)"
proof -
  have 1: "plain_text example_link (replicate 5000 97) = replicate 4092 97 @ ascii ''...''"
    by (simp add: plain_text_def plain_text_link_def example_link_def Let_def ascii_def)
  have "last (plain_text example_link (replicate 5000 97)) = 46"
    by (simp add: 1 ascii_def)
  moreover have "last (plain_text_link example_link) = 100" "plain_text_link example_link \<noteq> []"
    by (simp_all add: plain_text_link_def example_link_def)
  ultimately have "\<not> endswith (plain_text example_link (replicate 5000 97)) (plain_text_link example_link)"
    using endswith_last by fastforce
  with 1 show ?thesis by (simp add: plain_text_link_def)
qed

section \<open>Properties of the image selection\<close>

lemma load_images_subset: "set (load_images rk k urls) \<subseteq> set urls"
  by (induction urls arbitrary: k) auto

lemma nth_cons_cases:
  "0 \<le> idx \<Longrightarrow> idx < 1 + int (length vs) \<Longrightarrow> (v # vs) ! nat idx \<notin> set vs \<Longrightarrow>
     (v # vs) ! nat idx = v"
  by (cases "nat idx") auto

lemma select_result_cases:
  "select_best_image rk urls post = Inr (Some u) \<Longrightarrow> u \<in> set (load_images rk 0 (take 5 urls))"
  by (auto simp: select_best_image_def Let_def intro: nth_cons_cases
      split: if_splits option.splits list.splits model_reply.splits)

text \<open>
  Claim C10. The result of \<open>select_best_image\<close> is \<open>None\<close> or one of the first five URLs
  of the list it was given; for the empty list it is \<open>None\<close>. The function raises only when
  the prompt template cannot be formatted, and never for the empty list.
\<close>

theorem selected_image_is_candidate:
  "(select_best_image rk urls post = Inr (Some u) \<longrightarrow> u \<in> set (take 5 urls) \<and> u \<in> set urls)
   \<and> select_best_image rk [] post = Inr None
   \<and> (select_best_image rk urls post = Inl err \<longrightarrow> urls \<noteq> [] \<and> format_prompt rk post = None)"
proof -
  have "u \<in> set (take 5 urls) \<and> u \<in> set urls" if "select_best_image rk urls post = Inr (Some u)"
    using select_result_cases [OF that] load_images_subset [of rk 0 "take 5 urls"]
    by (meson in_set_takeD subsetD)
  moreover have "select_best_image rk [] post = Inr None"
    by (simp add: select_best_image_def)
  moreover have "urls \<noteq> [] \<and> format_prompt rk post = None"
    if "select_best_image rk urls post = Inl err"
    using that by (auto simp: select_best_image_def Let_def
      split: if_splits option.splits list.splits model_reply.splits)
  ultimately show ?thesis by blast
qed

theorem selected_image_is_candidate_witness:
  "select_best_image example_ranking [[97], [98]] [] = Inr (Some [98])
   \<and> [98] \<in> set (take 5 [[97], [98::nat]])"
proof -
  have "select_best_image example_ranking [[97], [98]] [] = Inr (Some [98])" by code_simp
  then show ?thesis
    using selected_image_is_candidate [of example_ranking "[[97], [98]]" "[]" "[98]"] by simp
qed

text \<open>
  Claim C7, as the code has it. When the ranking collaborator fails or gives no clear
  answer, the result is the first of the first five candidates that could be downloaded and
  decoded, and the result is \<open>None\<close> exactly when none of them could be.
\<close>

theorem fallback_first_loaded:
  "format_prompt rk post = Some prompt_text \<Longrightarrow>
     (no_clear_answer rk prompt_text (load_images rk 0 (take 5 urls)) \<longrightarrow>
        select_best_image rk urls post =
          Inr (case load_images rk 0 (take 5 urls) of [] \<Rightarrow> None | v # _ \<Rightarrow> Some v))
     \<and> ((select_best_image rk urls post = Inr None) = (load_images rk 0 (take 5 urls) = []))"
  by (auto simp: select_best_image_def no_clear_answer_def Let_def
      split: if_splits option.splits list.splits model_reply.splits)

theorem fallback_first_loaded_witness:
  "format_prompt example_ranking [] = Some []
   \<and> no_clear_answer example_ranking [] (load_images example_ranking 0 (take 5 [[97], [98]]))
   \<and> select_best_image example_ranking [[97], [98]] [] = Inr (Some [98])"
proof -
  have fp: "format_prompt example_ranking [] = Some []" by (simp add: example_ranking_def)
  have li: "load_images example_ranking 0 (take 5 [[97], [98]]) = [[98]]"
    by (simp add: example_ranking_def image_loads_def py_lower_def ascii_def endswith_def
        startswith_def)
  have nc: "no_clear_answer example_ranking [] (load_images example_ranking 0 (take 5 [[97], [98]]))"
    by (simp add: no_clear_answer_def example_ranking_def)
  have imp: "no_clear_answer example_ranking [] (load_images example_ranking 0 (take 5 [[97], [98]]))
      \<longrightarrow> select_best_image example_ranking [[97], [98]] [] =
          Inr (case load_images example_ranking 0 (take 5 [[97], [98]]) of
                 [] \<Rightarrow> None | v # _ \<Rightarrow> Some v)"
    using fallback_first_loaded [OF fp, of "[[97], [98]]"] by (rule conjunct1)
  have "select_best_image example_ranking [[97], [98]] [] =
          Inr (case load_images example_ranking 0 (take 5 [[97], [98]]) of
                 [] \<Rightarrow> None | v # _ \<Rightarrow> Some v)"
    using imp nc by (rule mp)
  then have "select_best_image example_ranking [[97], [98]] [] = Inr (Some [98])"
    by (simp only: li list.case)
  with fp nc show ?thesis by (intro conjI)
qed

text \<open>
  The claim as stated fails: with one candidate whose download fails the result is \<open>None\<close>,
  and with two candidates of which the first fails to download the fallback is the second.
\<close>

theorem no_image_although_supplied:
  "select_best_image dead_ranking [[97]] [] = Inr None
   \<and> select_best_image example_ranking [[97], [98]] [] = Inr (Some [98])"
  by code_simp

section \<open>Properties of the schedule\<close>







end
